theory Spec2Isabelle
  imports Complex_Main
begin

section \<open>Collaborator types\<close>

text \<open>
  The serializer of \<^verbatim>\<open>gltf.ts\<close> consumes value types that are declared in other modules
  (\<^verbatim>\<open>types.ts\<close>, \<^verbatim>\<open>vertex.ts\<close>, \<^verbatim>\<open>material.ts\<close>, \<^verbatim>\<open>mesh.ts\<close>, \<^verbatim>\<open>node.ts\<close>,
  \<^verbatim>\<open>scene.ts\<close>, \<^verbatim>\<open>asset.ts\<close>, \<^verbatim>\<open>gltftypes.ts\<close>). They are declared here with the fields
  that \<^verbatim>\<open>gltf.ts\<close> reads and writes. A finite Number of the language is a rational
  (every finite double is one); NaN and the infinities are not represented.
\<close>

type_synonym number = rat

text \<open>
  Modelled from the spec: the enumerations of \<^verbatim>\<open>types.ts\<close>, with the members that
  \<^verbatim>\<open>gltf.ts\<close> names or that the three output strategies and the colouring modes of the
  specification need. Every mesh mode other than the triangle list is an
  \<^verbatim>\<open>OtherMeshMode\<close>.
\<close>

datatype MeshMode = TRIANGLES | OtherMeshMode nat
datatype ComponentType = FLOAT | UNSIGNED_BYTE
datatype DataType = SCALAR | VEC2 | VEC3 | VEC4
datatype VertexColorMode = NoColors | FaceColors | VertexColors
datatype AlphaMode = OPAQUE | MASK | BLEND
datatype ImageOutputType = ImageGLB | ImageDataURI | ImageExternal
datatype BufferOutputType = BufferGLB | BufferDataURI | BufferExternal
datatype WrappingMode = CLAMP_TO_EDGE | MIRRORED_REPEAT | REPEAT

text \<open>
  \<^verbatim>\<open>RGBColor | RGBAColor\<close>: the test \<^verbatim>\<open>"a" in color\<close> is the constructor test.
\<close>

datatype Color = RGBColor number number number | RGBAColor number number number number

text \<open>
  Modelled from the spec: the constructor \<^verbatim>\<open>new RGBColor()\<close> of \<^verbatim>\<open>types.ts\<close>
  (``a missing color defaulting to black (0,0,0)'').
\<close>

definition new_RGBColor :: Color where
  "new_RGBColor = RGBColor 0 0 0"

text \<open>
  An image handle is an object: an element or canvas of the host, or a pass-through
  object \<^verbatim>\<open>{ uri }\<close>. The natural number is the identity of the object, so that
  \<^verbatim>\<open>===\<close> on handles is equality of these values; handles are not mutated during
  a build.
\<close>

datatype Image = HTMLImage nat | UriImage nat string

fun uri_in :: "Image \<Rightarrow> string option" where
  "uri_in (HTMLImage _) = None"
| "uri_in (UriImage _ u) = Some u"

record Texture =
  wrapS :: WrappingMode
  wrapT :: WrappingMode
  magFilter :: "number option"
  minFilter :: "number option"
  tex_image :: Image

record PBR =
  pbr_params :: "(string \<times> number) list"
  baseColorTexture :: "Texture option"

record Material =
  mat_name :: string
  alphaMode :: AlphaMode
  alphaCutoff :: number
  doubleSided :: bool
  pbrMetallicRoughness :: "PBR option"
  vertexColorMode :: VertexColorMode

record Vertex =
  vert_x :: number
  vert_y :: number
  vert_z :: number
  normalX :: number
  normalY :: number
  normalZ :: number
  vert_u :: number
  vert_v :: number
  vert_color :: "Color option"

text \<open>
  Modelled from the spec: the face stream of \<^verbatim>\<open>mesh.ts\<close> (``an ordered stream of faces,
  each a triple of vertices plus an optional face color and a material index''). A face
  is one call of the callback of \<^verbatim>\<open>mesh.forEachFace\<close>, with its five arguments, and
  the mesh holds its faces in the order of the calls.
\<close>

record Face =
  face_v1 :: Vertex
  face_v2 :: Vertex
  face_v3 :: Vertex
  face_color :: "Color option"
  face_materialIndex :: int

record Mesh =
  mesh_material :: "Material list"
  mesh_mode :: MeshMode
  mesh_faces :: "Face list"

text \<open>
  Modelled from the spec: the vector and quaternion values of the math module, and their
  \<^verbatim>\<open>toArray()\<close>, which lists the components in order. A node holds its mesh or its
  children, which \<^verbatim>\<open>node.forEachNode\<close> visits in order; a scene and an asset do the same
  for \<^verbatim>\<open>scene.forEachNode\<close> and \<^verbatim>\<open>asset.forEachScene\<close>.
\<close>

datatype Vector3 = Vector3 number number number
datatype Quaternion = Quaternion number number number number

fun toArray3 :: "Vector3 \<Rightarrow> number list" where
  "toArray3 (Vector3 x y z) = [x, y, z]"

fun toArray4 :: "Quaternion \<Rightarrow> number list" where
  "toArray4 (Quaternion x y z w) = [x, y, z, w]"

datatype Node = Node (node_name: string) (getTranslation: Vector3)
  (getRotationQuaternion: Quaternion) (getScale: Vector3)
  (node_mesh: "Mesh option") (node_children: "Node list")

record Scene =
  scene_name :: string
  scene_nodes :: "Node list"

record GLTFAsset =
  defaultScene :: nat
  asset_scenes :: "Scene list"

section \<open>The document\<close>

record glTFSampler =
  gs_wrapS :: WrappingMode
  gs_wrapT :: WrappingMode

datatype UriValue = UriString string | UriBytes Image

record glTFImage =
  img_extras :: Image
  img_uri :: "UriValue option"
  img_bufferView :: "nat option"
  img_mimeType :: "string option"

record glTFTexture =
  tex_sampler :: nat
  tex_source :: nat

record glTFPBR =
  gpbr_params :: "(string \<times> number) list"
  gpbr_baseColorTexture :: "nat option"

record glTFMaterial =
  gm_name :: "string option"
  gm_alphaMode :: "AlphaMode option"
  gm_alphaCutoff :: "number option"
  gm_doubleSided :: "bool option"
  gm_pbrMetallicRoughness :: "glTFPBR option"

record glTFAccessor =
  acc_bufferView :: nat
  acc_byteOffset :: nat
  acc_componentType :: ComponentType
  acc_count :: nat
  acc_type :: DataType
  acc_min :: "number list"
  acc_max :: "number list"
  acc_normalized :: "bool option"

text \<open>
  The attribute object of a primitive keeps the insertion order of its keys; it is an
  association list, read with \<^const>\<open>map_of\<close>.
\<close>

record glTFMeshPrimitives =
  prim_attributes :: "(string \<times> nat) list"
  prim_mode :: MeshMode
  prim_material :: "int option"

record glTFMesh =
  primitives :: "glTFMeshPrimitives list"

record glTFNode =
  gn_name :: "string option"
  gn_translation :: "number list option"
  gn_rotation :: "number list option"
  gn_scale :: "number list option"
  gn_mesh :: "nat option"
  gn_children :: "nat list option"

record glTFScene =
  gsc_name :: "string option"
  gsc_nodes :: "nat list option"

subsection \<open>Buffers and buffer views\<close>

text \<open>
  Modelled from the spec: the classes \<^verbatim>\<open>Buffer\<close> and \<^verbatim>\<open>BufferView\<close> of \<^verbatim>\<open>buffer.ts\<close>,
  which is not among the sources. A view records its component type and shape, the
  components pushed so far, the in-progress accessor segment (its name and the position
  of its first component) and whether it has been sealed. A buffer records the views
  it owns, in creation order, and whether \<^verbatim>\<open>finalize()\<close> has been called on it. The
  objects live in two stores of the document state; a reference to a view or a buffer is its position in
  the store, which is also what \<^verbatim>\<open>getIndex()\<close> returns.
\<close>

record BufferView =
  bv_buffer :: nat
  bv_componentType :: ComponentType
  bv_dataType :: DataType
  bv_data :: "number list"
  bv_segment :: "(string \<times> nat) option"
  bv_finalized :: bool

record Buffer =
  buf_views :: "nat list"
  buf_finalizeCalled :: bool

record BufferAccessorInfo =
  info_byteOffset :: nat
  info_componentType :: ComponentType
  info_count :: nat
  info_type :: DataType
  info_min :: "number list"
  info_max :: "number list"
  info_normalized :: bool

text \<open>
  A reaction registered on a promise and not yet run. The host runs it in a later turn
  of its event loop, never inside the call that registers it.
  \<^item> \<open>WriteThenFinalize k image\<close>: the bytes of \<open>image\<close> are written into view \<open>k\<close>,
    then \<^verbatim>\<open>bufferView.finalize()\<close> is called (binary-container images);
  \<^item> \<open>SetUri i image\<close>: the \<^verbatim>\<open>uri\<close> of image entry \<open>i\<close> is set (external images).
\<close>

datatype job = WriteThenFinalize nat Image | SetUri nat Image

text \<open>
  The document with its \<^verbatim>\<open>extras\<close> (the two output options, the container buffer,
  the promises handed to the caller), the two object stores and the reactions that the
  host still has to run. An array that the source leaves \<^verbatim>\<open>undefined\<close> until its
  first use is an optional list.
\<close>

record glTF =
  scene :: "nat option"
  scenes :: "glTFScene list option"
  nodes :: "glTFNode list option"
  meshes :: "glTFMesh list option"
  materials :: "glTFMaterial list option"
  textures :: "glTFTexture list option"
  images :: "glTFImage list option"
  samplers :: "glTFSampler list option"
  accessors :: "glTFAccessor list option"
  buffers :: "Buffer list"
  bufferViews :: "BufferView list"
  bufferOutputType :: BufferOutputType
  imageOutputType :: ImageOutputType
  binChunkBuffer :: "nat option"
  promises :: "job list"
  pending :: "job list"

text \<open>
  What the host and the modules outside \<^verbatim>\<open>gltf.ts\<close> compute, taken as parameters:
  the two image encoders of \<^verbatim>\<open>imageutils.ts\<close>, the multiplication of two Numbers
  (a double multiplication, rounded), and the \<^verbatim>\<open>normalized\<close> flag that a view of a
  given component type and shape reports for its accessors.
\<close>

record host =
  imageToDataURI :: "Image \<Rightarrow> string"
  imageToArrayBuffer :: "Image \<Rightarrow> number list"
  multiply :: "number \<Rightarrow> number \<Rightarrow> number"
  normalizedFlag :: "ComponentType \<Rightarrow> DataType \<Rightarrow> bool"

text \<open>
  A call either returns a value or throws; the document has been mutated in both cases.
\<close>

datatype error = Thrown string | TypeError

datatype 'a res = Ok 'a glTF | Err error glTF

definition arr :: "'a list option \<Rightarrow> 'a list" where
  "arr xs = (case xs of None \<Rightarrow> [] | Some l \<Rightarrow> l)"

section \<open>Samplers\<close>

text \<open>
  \<^verbatim>\<open>JSON.stringify\<close> of a sampler object: its keys in insertion order, each with its
  value. Both arguments of \<^verbatim>\<open>objectsEqual\<close> are objects with the keys \<^verbatim>\<open>wrapS\<close>,
  \<^verbatim>\<open>wrapT\<close>; two renderings are the same string when the keys and the enum values
  agree.
\<close>

definition JSON_stringify :: "glTFSampler \<Rightarrow> (string \<times> WrappingMode) list" where
  "JSON_stringify obj = [(''wrapS'', gs_wrapS obj), (''wrapT'', gs_wrapT obj)]"

definition objectsEqual :: "glTFSampler \<Rightarrow> glTFSampler \<Rightarrow> bool" where
  "objectsEqual obj1 obj2 = (JSON_stringify obj1 = JSON_stringify obj2)"

text \<open>The scan \<^verbatim>\<open>for (let i = ...; i < gltf.samplers.length; i++)\<close>, from index \<open>i\<close>.\<close>

fun scanSamplers :: "glTFSampler \<Rightarrow> glTFSampler list \<Rightarrow> nat \<Rightarrow> nat option" where
  "scanSamplers s [] i = None"
| "scanSamplers s (x # xs) i = (if objectsEqual s x then Some i else scanSamplers s xs (Suc i))"

definition addSampler :: "glTF \<Rightarrow> Texture \<Rightarrow> nat \<times> glTF" where
  "addSampler gltf texture =
     (let g1 = gltf\<lparr>samplers := Some (arr (samplers gltf))\<rparr>;
          gltfSampler = \<lparr>gs_wrapS = wrapS texture, gs_wrapT = wrapT texture\<rparr>
      in case scanSamplers gltfSampler (arr (samplers g1)) 0 of
           Some i \<Rightarrow> (i, g1)
         | None \<Rightarrow> (length (arr (samplers g1)),
                     g1\<lparr>samplers := Some (arr (samplers g1) @ [gltfSampler])\<rparr>))"

section \<open>Buffer views\<close>

text \<open>
  Modelled from the spec: the methods of \<^verbatim>\<open>Buffer\<close> and \<^verbatim>\<open>BufferView\<close> that
  \<^verbatim>\<open>gltf.ts\<close> calls (section 4.1 of the specification). \<^verbatim>\<open>new Buffer(gltf)\<close> and
  \<^verbatim>\<open>addBufferView\<close> append an object to its store, and its position is its index;
  \<^verbatim>\<open>startAccessor\<close> begins a segment at the current end of the view; \<^verbatim>\<open>push\<close> appends
  one component; \<^verbatim>\<open>endAccessor\<close> closes the segment and reports its offset in bytes,
  its count of elements and its bounds for every component of the shape;
  \<^verbatim>\<open>finalize\<close> seals a view.
\<close>

definition mapView :: "nat \<Rightarrow> (BufferView \<Rightarrow> BufferView) \<Rightarrow> glTF \<Rightarrow> glTF" where
  "mapView k f g = g\<lparr>bufferViews := (bufferViews g)[k := f (bufferViews g ! k)]\<rparr>"

definition addBuffer :: "glTF \<Rightarrow> nat \<times> glTF" where
  "addBuffer g =
     (length (buffers g),
      g\<lparr>buffers := buffers g @ [\<lparr>buf_views = [], buf_finalizeCalled = False\<rparr>]\<rparr>)"

definition addBufferView :: "nat \<Rightarrow> ComponentType \<Rightarrow> DataType \<Rightarrow> glTF \<Rightarrow> nat \<times> glTF" where
  "addBufferView b ct dt g =
     (let k = length (bufferViews g);
          v = \<lparr>bv_buffer = b, bv_componentType = ct, bv_dataType = dt, bv_data = [],
               bv_segment = None, bv_finalized = False\<rparr>
      in (k, g\<lparr>bufferViews := bufferViews g @ [v],
               buffers := (buffers g)[b := (buffers g ! b)
                             \<lparr>buf_views := buf_views (buffers g ! b) @ [k]\<rparr>]\<rparr>))"

definition startAccessor :: "nat \<Rightarrow> string \<Rightarrow> glTF \<Rightarrow> glTF" where
  "startAccessor k name g =
     mapView k (\<lambda>v. v\<lparr>bv_segment := Some (name, length (bv_data v))\<rparr>) g"

definition push :: "nat \<Rightarrow> number \<Rightarrow> glTF \<Rightarrow> glTF" where
  "push k x g = mapView k (\<lambda>v. v\<lparr>bv_data := bv_data v @ [x]\<rparr>) g"

fun componentSize :: "ComponentType \<Rightarrow> nat" where
  "componentSize FLOAT = 4"
| "componentSize UNSIGNED_BYTE = 1"

fun stride :: "DataType \<Rightarrow> nat" where
  "stride SCALAR = 1"
| "stride VEC2 = 2"
| "stride VEC3 = 3"
| "stride VEC4 = 4"

text \<open>Component \<open>c\<close> of every element of a segment, and the bound over them.\<close>

definition column :: "nat \<Rightarrow> nat \<Rightarrow> number list \<Rightarrow> number list" where
  "column n c xs = map (\<lambda>j. xs ! (j * n + c)) [0..<length xs div n]"

definition bounds :: "(number \<Rightarrow> number \<Rightarrow> number) \<Rightarrow> nat \<Rightarrow> number list \<Rightarrow> number list" where
  "bounds f n xs =
     (if length xs div n = 0 then []
      else map (\<lambda>c. fold f (tl (column n c xs)) (hd (column n c xs))) [0..<n])"

definition segmentInfo :: "host \<Rightarrow> BufferView \<Rightarrow> nat \<Rightarrow> BufferAccessorInfo" where
  "segmentInfo h v start =
     (let comps = drop start (bv_data v); n = stride (bv_dataType v)
      in \<lparr>info_byteOffset = start * componentSize (bv_componentType v),
          info_componentType = bv_componentType v,
          info_count = length comps div n,
          info_type = bv_dataType v,
          info_min = bounds min n comps,
          info_max = bounds max n comps,
          info_normalized = normalizedFlag h (bv_componentType v) (bv_dataType v)\<rparr>)"

text \<open>
  \<^verbatim>\<open>endAccessor()\<close> closes the in-progress segment and reports it; there is nothing
  to report when no segment is in progress.
\<close>

definition endAccessor :: "host \<Rightarrow> nat \<Rightarrow> glTF \<Rightarrow> (BufferAccessorInfo \<times> glTF) option" where
  "endAccessor h k g =
     (case bv_segment (bufferViews g ! k) of
        None \<Rightarrow> None
      | Some (name, start) \<Rightarrow>
          Some (segmentInfo h (bufferViews g ! k) start,
                mapView k (\<lambda>v. v\<lparr>bv_segment := None\<rparr>) g))"

definition finalizeView :: "nat \<Rightarrow> glTF \<Rightarrow> glTF" where
  "finalizeView k g = mapView k (\<lambda>v. v\<lparr>bv_finalized := True\<rparr>) g"

text \<open>
  The call \<^verbatim>\<open>buffer.finalize()\<close>, as \<^verbatim>\<open>gltf.ts\<close> makes it: the buffer remembers that it
  has been asked to finalize. What the method does beyond that is in \<^verbatim>\<open>buffer.ts\<close>.
\<close>

definition finalizeBuffer :: "nat \<Rightarrow> glTF \<Rightarrow> glTF" where
  "finalizeBuffer b g =
     g\<lparr>buffers := (buffers g)[b := (buffers g ! b)\<lparr>buf_finalizeCalled := True\<rparr>]\<rparr>"

text \<open>
  Modelled from the spec: when a \<^verbatim>\<open>Buffer\<close> of \<^verbatim>\<open>buffer.ts\<close> is finalized. The
  specification says that a buffer is finalized only after all asynchronous writes destined
  for it have completed, and that the content of an image's view and the view's
  \<^verbatim>\<open>finalize()\<close> happen only once the encoding completes: a buffer is finalized once
  \<^verbatim>\<open>finalize()\<close> has been called on it and every view that belongs to it has been sealed.
\<close>

definition finalized :: "glTF \<Rightarrow> nat \<Rightarrow> bool" where
  "finalized g b =
     (buf_finalizeCalled (buffers g ! b) \<and>
      list_all (\<lambda>v. bv_buffer v = b \<longrightarrow> bv_finalized v) (bufferViews g))"

section \<open>Images, textures, materials, accessors\<close>

text \<open>The scan of \<^verbatim>\<open>addImage\<close> over the registered images, from index \<open>i\<close>.\<close>

fun scanImages :: "Image \<Rightarrow> glTFImage list \<Rightarrow> nat \<Rightarrow> nat option" where
  "scanImages img [] i = None"
| "scanImages img (x # xs) i =
     (if img = img_extras x then Some i
      else if (case uri_in img of None \<Rightarrow> False | Some u \<Rightarrow> img_uri x = Some (UriString u))
      then Some i
      else scanImages img xs (Suc i))"

definition pushImage :: "glTFImage \<Rightarrow> glTF \<Rightarrow> nat res" where
  "pushImage gltfImage g =
     Ok (length (arr (images g))) (g\<lparr>images := Some (arr (images g) @ [gltfImage])\<rparr>)"

definition addImage :: "host \<Rightarrow> glTF \<Rightarrow> Image \<Rightarrow> nat res" where
  "addImage h gltf img =
     (let g1 = gltf\<lparr>images := Some (arr (images gltf))\<rparr>
      in case scanImages img (arr (images g1)) 0 of
           Some i \<Rightarrow> Ok i g1
         | None \<Rightarrow>
            (let gltfImage = \<lparr>img_extras = img, img_uri = None, img_bufferView = None,
                              img_mimeType = None\<rparr>
             in case uri_in img of
                  Some u \<Rightarrow> pushImage (gltfImage\<lparr>img_uri := Some (UriString u)\<rparr>) g1
                | None \<Rightarrow>
                   (case imageOutputType g1 of
                      ImageGLB \<Rightarrow>
                        (case binChunkBuffer g1 of
                           None \<Rightarrow> Err TypeError g1
                         | Some b \<Rightarrow>
                            (let (bufferView, g2) = addBufferView b UNSIGNED_BYTE SCALAR g1;
                                 g3 = g2\<lparr>pending := pending g2 @ [WriteThenFinalize bufferView img]\<rparr>
                             in pushImage (gltfImage\<lparr>img_bufferView := Some bufferView,
                                                      img_mimeType := Some ''image/png''\<rparr>) g3))
                    | ImageDataURI \<Rightarrow>
                        pushImage (gltfImage\<lparr>img_uri := Some (UriString (imageToDataURI h img))\<rparr>) g1
                    | ImageExternal \<Rightarrow>
                        (let j = SetUri (length (arr (images g1))) img
                         in pushImage gltfImage
                              (g1\<lparr>promises := promises g1 @ [j], pending := pending g1 @ [j]\<rparr>)))))"

text \<open>
  The host runs a pending reaction: the write into the view followed by the view's
  \<^verbatim>\<open>finalize()\<close>, or the assignment of the encoded bytes to the \<^verbatim>\<open>uri\<close> of the entry.
\<close>

fun runJob :: "host \<Rightarrow> job \<Rightarrow> glTF \<Rightarrow> glTF" where
  "runJob h (WriteThenFinalize k img) g =
     finalizeView k (mapView k (\<lambda>v. v\<lparr>bv_data := imageToArrayBuffer h img\<rparr>) g)"
| "runJob h (SetUri i img) g =
     g\<lparr>images := Some ((arr (images g))[i := (arr (images g) ! i)\<lparr>img_uri := Some (UriBytes img)\<rparr>])\<rparr>"

definition addTexture :: "host \<Rightarrow> glTF \<Rightarrow> Texture \<Rightarrow> nat res" where
  "addTexture h gltf texture =
     (let g1 = gltf\<lparr>textures := Some (arr (textures gltf))\<rparr>;
          (sampler, g2) = addSampler g1 texture
      in case addImage h g2 (tex_image texture) of
           Err e g3 \<Rightarrow> Err e g3
         | Ok source g3 \<Rightarrow>
             Ok (length (arr (textures g3)))
                (g3\<lparr>textures := Some (arr (textures g3)
                        @ [\<lparr>tex_sampler = sampler, tex_source = source\<rparr>])\<rparr>))"

definition addMaterial :: "host \<Rightarrow> glTF \<Rightarrow> Material \<Rightarrow> nat res" where
  "addMaterial h gltf material =
     (let g1 = gltf\<lparr>materials := Some (arr (materials gltf))\<rparr>;
          gltfMaterial = \<lparr>
            gm_name = (if mat_name material \<noteq> [] then Some (mat_name material) else None),
            gm_alphaMode = (if alphaMode material \<noteq> OPAQUE then Some (alphaMode material) else None),
            gm_alphaCutoff = (if alphaCutoff material \<noteq> 1 / 2 then Some (alphaCutoff material) else None),
            gm_doubleSided = (if doubleSided material then Some True else None),
            gm_pbrMetallicRoughness = None\<rparr>;
          finish = (\<lambda>m g. Ok (length (arr (materials g)))
                              (g\<lparr>materials := Some (arr (materials g) @ [m])\<rparr>))
      in case pbrMetallicRoughness material of
           None \<Rightarrow> finish gltfMaterial g1
         | Some pbr \<Rightarrow>
            (case baseColorTexture pbr of
               None \<Rightarrow>
                 finish (gltfMaterial\<lparr>gm_pbrMetallicRoughness :=
                           Some \<lparr>gpbr_params = pbr_params pbr, gpbr_baseColorTexture = None\<rparr>\<rparr>) g1
             | Some texture \<Rightarrow>
                (case addTexture h g1 texture of
                   Err e g2 \<Rightarrow> Err e g2
                 | Ok textureIndex g2 \<Rightarrow>
                     finish (gltfMaterial\<lparr>gm_pbrMetallicRoughness :=
                               Some \<lparr>gpbr_params = pbr_params pbr,
                                     gpbr_baseColorTexture = Some textureIndex\<rparr>\<rparr>) g2)))"

text \<open>The loop of \<^verbatim>\<open>addMaterials\<close>, with the indices collected so far.\<close>

fun addMaterialsFrom :: "host \<Rightarrow> nat list \<Rightarrow> glTF \<Rightarrow> Material list \<Rightarrow> (nat list) res" where
  "addMaterialsFrom h indices g [] = Ok indices g"
| "addMaterialsFrom h indices g (material # rest) =
     (case addMaterial h g material of
        Err e g1 \<Rightarrow> Err e g1
      | Ok i g1 \<Rightarrow> addMaterialsFrom h (indices @ [i]) g1 rest)"

definition addMaterials :: "host \<Rightarrow> glTF \<Rightarrow> Material list \<Rightarrow> (nat list) res" where
  "addMaterials h gltf ms = addMaterialsFrom h [] gltf ms"

definition addAccessor :: "glTF \<Rightarrow> nat \<Rightarrow> BufferAccessorInfo \<Rightarrow> nat \<times> glTF" where
  "addAccessor gltf bufferViewIndex accessorInfo =
     (let g1 = gltf\<lparr>accessors := Some (arr (accessors gltf))\<rparr>;
          addedIndex = length (arr (accessors g1));
          accessor = \<lparr>acc_bufferView = bufferViewIndex,
                      acc_byteOffset = info_byteOffset accessorInfo,
                      acc_componentType = info_componentType accessorInfo,
                      acc_count = info_count accessorInfo,
                      acc_type = info_type accessorInfo,
                      acc_min = info_min accessorInfo,
                      acc_max = info_max accessorInfo,
                      acc_normalized = (if info_normalized accessorInfo then Some True else None)\<rparr>
      in (addedIndex, g1\<lparr>accessors := Some (arr (accessors g1) @ [accessor])\<rparr>))"

section \<open>Meshes\<close>

text \<open>
  \<^verbatim>\<open>(x * 255) | 0\<close>: the bitwise or converts its operand to a signed 32-bit integer,
  by truncating toward zero and reducing modulo \<open>2\<^sup>3\<^sup>2\<close>.
\<close>

definition toInt32 :: "number \<Rightarrow> int" where
  "toInt32 x =
     (let t = (if x < 0 then - \<lfloor>- x\<rfloor> else \<lfloor>x\<rfloor>); m = t mod 4294967296
      in if m \<ge> 2147483648 then m - 4294967296 else m)"

definition quantize :: "host \<Rightarrow> number \<Rightarrow> number" where
  "quantize h c = of_int (toInt32 (multiply h c 255))"

fun addColorToBufferView :: "host \<Rightarrow> nat \<Rightarrow> Color \<Rightarrow> glTF \<Rightarrow> glTF" where
  "addColorToBufferView h bufferView (RGBColor r g b) gltf =
     push bufferView 255
       (push bufferView (quantize h b)
         (push bufferView (quantize h g)
           (push bufferView (quantize h r) gltf)))"
| "addColorToBufferView h bufferView (RGBAColor r g b a) gltf =
     push bufferView (quantize h a)
       (push bufferView (quantize h b)
         (push bufferView (quantize h g)
           (push bufferView (quantize h r) gltf)))"

text \<open>\<^verbatim>\<open>mesh.material[materialIndex]\<close>: \<^verbatim>\<open>undefined\<close> outside the array.\<close>

definition materialAt :: "Mesh \<Rightarrow> int \<Rightarrow> Material option" where
  "materialAt mesh i =
     (if 0 \<le> i \<and> nat i < length (mesh_material mesh) then Some (mesh_material mesh ! nat i)
      else None)"

text \<open>
  The local variables of \<^verbatim>\<open>addMesh\<close> that its two closures share: the mesh entry
  being filled (by its index), the buffer, the three views, the lazily created colour
  view and \<^verbatim>\<open>lastMaterialIndex\<close>. The document is passed beside them.
\<close>

record meshLocals =
  gltfMesh :: nat
  meshBuffer :: nat
  vertexBufferView :: nat
  vertexNormalBufferView :: nat
  vertexUVBufferView :: nat
  vertexColorBufferView :: "nat option"
  lastMaterialIndex :: "int option"

definition ensureColorBufferView :: "meshLocals \<Rightarrow> glTF \<Rightarrow> nat \<times> meshLocals \<times> glTF" where
  "ensureColorBufferView st g =
     (case vertexColorBufferView st of
        Some k \<Rightarrow> (k, st, g)
      | None \<Rightarrow>
          (let (k, g1) = addBufferView (meshBuffer st) UNSIGNED_BYTE VEC4 g
           in (k, st\<lparr>vertexColorBufferView := Some k\<rparr>, g1)))"

text \<open>
  \<^verbatim>\<open>_completeMeshPrimitive\<close>. The three segments are ended first, then their accessors
  are registered in the order of the object literal; the material is looked up only for
  a non-negative index, and reading \<^verbatim>\<open>vertexColorMode\<close> of \<^verbatim>\<open>undefined\<close> throws, as
  does a call on the colour view while it is \<^verbatim>\<open>undefined\<close>. An \<^verbatim>\<open>endAccessor()\<close> that
  finds no segment in progress is taken to fail as well.
\<close>

definition completeMeshPrimitive ::
    "host \<Rightarrow> Mesh \<Rightarrow> meshLocals \<Rightarrow> int \<Rightarrow> glTF \<Rightarrow> glTFMeshPrimitives res" where
  "completeMeshPrimitive h mesh st materialIndex g =
     (case endAccessor h (vertexBufferView st) g of
        None \<Rightarrow> Err TypeError g
      | Some (vertexInfo, g1) \<Rightarrow>
     (case endAccessor h (vertexNormalBufferView st) g1 of
        None \<Rightarrow> Err TypeError g1
      | Some (normalInfo, g2) \<Rightarrow>
     (case endAccessor h (vertexUVBufferView st) g2 of
        None \<Rightarrow> Err TypeError g2
      | Some (uvInfo, g3) \<Rightarrow>
       (let (position, g4) = addAccessor g3 (vertexBufferView st) vertexInfo;
            (normal, g5) = addAccessor g4 (vertexNormalBufferView st) normalInfo;
            (texcoord, g6) = addAccessor g5 (vertexUVBufferView st) uvInfo;
            primitive = \<lparr>prim_attributes =
                           [(''POSITION'', position), (''NORMAL'', normal), (''TEXCOORD_0'', texcoord)],
                         prim_mode = mesh_mode mesh, prim_material = None\<rparr>
        in if materialIndex \<ge> 0 then
             (case materialAt mesh materialIndex of
                None \<Rightarrow> Err TypeError g6
              | Some material \<Rightarrow>
                 if vertexColorMode material \<noteq> NoColors then
                   (case vertexColorBufferView st of
                      None \<Rightarrow> Err TypeError g6
                    | Some cv \<Rightarrow>
                       (case endAccessor h cv g6 of
                          None \<Rightarrow> Err TypeError g6
                        | Some (colorInfo, g7) \<Rightarrow>
                           (let (color, g8) = addAccessor g7 cv colorInfo
                            in Ok (primitive\<lparr>prim_material := Some materialIndex,
                                     prim_attributes := prim_attributes primitive @ [(''COLOR_0'', color)]\<rparr>)
                                  g8)))
                 else Ok (primitive\<lparr>prim_material := Some materialIndex\<rparr>) g6)
           else Ok primitive g6))))"

text \<open>\<^verbatim>\<open>gltfMesh.primitives.push(primitive)\<close> on the mesh entry that was appended before.\<close>

definition pushPrimitive :: "nat \<Rightarrow> glTFMeshPrimitives \<Rightarrow> glTF \<Rightarrow> glTF" where
  "pushPrimitive m primitive g =
     g\<lparr>meshes := Some ((arr (meshes g))[m := (arr (meshes g) ! m)
                   \<lparr>primitives := primitives (arr (meshes g) ! m) @ [primitive]\<rparr>])\<rparr>"

text \<open>
  \<^verbatim>\<open>if (lastMaterialIndex !== null) { ...push(_completeMeshPrimitive(lastMaterialIndex)) }\<close>,
  which the source has twice: inside the callback and after the loop.
\<close>

definition completeLast :: "host \<Rightarrow> Mesh \<Rightarrow> meshLocals \<Rightarrow> glTF \<Rightarrow> unit res" where
  "completeLast h mesh st g =
     (case lastMaterialIndex st of
        None \<Rightarrow> Ok () g
      | Some l \<Rightarrow>
         (case completeMeshPrimitive h mesh st l g of
            Err e g1 \<Rightarrow> Err e g1
          | Ok primitive g1 \<Rightarrow> Ok () (pushPrimitive (gltfMesh st) primitive g1)))"

definition pushAll :: "nat \<Rightarrow> number list \<Rightarrow> glTF \<Rightarrow> glTF" where
  "pushAll k xs g = foldl (\<lambda>g x. push k x g) g xs"

text \<open>The twenty-four pushes of positions, normals and texture coordinates of a face.\<close>

definition pushVertexData :: "meshLocals \<Rightarrow> Face \<Rightarrow> glTF \<Rightarrow> glTF" where
  "pushVertexData st f g =
     (let v1 = face_v1 f; v2 = face_v2 f; v3 = face_v3 f;
          g1 = pushAll (vertexBufferView st)
                 [vert_x v1, vert_y v1, vert_z v1,
                  vert_x v2, vert_y v2, vert_z v2,
                  vert_x v3, vert_y v3, vert_z v3] g;
          g2 = pushAll (vertexNormalBufferView st)
                 [normalX v1, normalY v1, normalZ v1,
                  normalX v2, normalY v2, normalZ v2,
                  normalX v3, normalY v3, normalZ v3] g1
      in pushAll (vertexUVBufferView st)
           [vert_u v1, vert_v v1, vert_u v2, vert_v v2, vert_u v3, vert_v v3] g2)"

text \<open>\<^verbatim>\<open>color || new RGBColor()\<close>\<close>

definition orDefault :: "Color option \<Rightarrow> Color" where
  "orDefault c = (case c of None \<Rightarrow> new_RGBColor | Some col \<Rightarrow> col)"

text \<open>The colours that the \<^verbatim>\<open>switch\<close> on the colouring mode passes on, in order.\<close>

fun faceColors :: "VertexColorMode \<Rightarrow> Face \<Rightarrow> Color list" where
  "faceColors FaceColors f =
     [orDefault (face_color f), orDefault (face_color f), orDefault (face_color f)]"
| "faceColors VertexColors f =
     [orDefault (vert_color (face_v1 f)), orDefault (vert_color (face_v2 f)),
      orDefault (vert_color (face_v3 f))]"
| "faceColors NoColors f = []"

definition pushColors :: "host \<Rightarrow> Material option \<Rightarrow> meshLocals \<Rightarrow> Face \<Rightarrow> glTF \<Rightarrow> unit res" where
  "pushColors h currentMaterial st f g =
     (case currentMaterial of
        None \<Rightarrow> Ok () g
      | Some material \<Rightarrow>
         (case faceColors (vertexColorMode material) f of
            [] \<Rightarrow> Ok () g
          | cs \<Rightarrow>
             (case vertexColorBufferView st of
                None \<Rightarrow> Err TypeError g
              | Some cv \<Rightarrow> Ok () (foldl (\<lambda>g c. addColorToBufferView h cv c g) g cs))))"

definition hasColors :: "Material option \<Rightarrow> bool" where
  "hasColors currentMaterial =
     (case currentMaterial of None \<Rightarrow> False | Some material \<Rightarrow> vertexColorMode material \<noteq> NoColors)"

text \<open>
  The body of \<^verbatim>\<open>if (lastMaterialIndex !== materialIndex)\<close> in the callback: the
  previous primitive is completed, new accessors are started, and the colour view is
  created on its first use.
\<close>

definition startNewAccessors ::
    "host \<Rightarrow> Mesh \<Rightarrow> meshLocals \<Rightarrow> glTF \<Rightarrow> int \<Rightarrow> Material option \<Rightarrow> meshLocals res" where
  "startNewAccessors h mesh st g materialIndex currentMaterial =
     (case completeLast h mesh st g of
        Err e g1 \<Rightarrow> Err e g1
      | Ok _ g1 \<Rightarrow>
         (let g2 = startAccessor (vertexBufferView st) ''POSITION'' g1;
              g3 = startAccessor (vertexNormalBufferView st) ''NORMAL'' g2;
              g4 = startAccessor (vertexUVBufferView st) ''TEXCOORD_0'' g3;
              (st5, g5) =
                 (if hasColors currentMaterial then
                    (let (cv, st', g') = ensureColorBufferView st g4
                     in (st', startAccessor cv ''COLOR_0'' g'))
                  else (st, g4))
          in Ok (st5\<lparr>lastMaterialIndex := Some materialIndex\<rparr>) g5))"

text \<open>The callback that \<^verbatim>\<open>addMesh\<close> passes to \<^verbatim>\<open>mesh.forEachFace\<close>.\<close>

definition faceCallback :: "host \<Rightarrow> Mesh \<Rightarrow> meshLocals \<Rightarrow> glTF \<Rightarrow> Face \<Rightarrow> meshLocals res" where
  "faceCallback h mesh st g f =
     (let materialIndex = face_materialIndex f;
          currentMaterial = (if materialIndex \<ge> 0 then materialAt mesh materialIndex else None)
      in case (if lastMaterialIndex st \<noteq> Some materialIndex
               then startNewAccessors h mesh st g materialIndex currentMaterial
               else Ok st g) of
           Err e g1 \<Rightarrow> Err e g1
         | Ok st1 g1 \<Rightarrow>
            (case pushColors h currentMaterial st1 f (pushVertexData st1 f g1) of
               Err e g2 \<Rightarrow> Err e g2
             | Ok _ g2 \<Rightarrow> Ok st1 g2))"

text \<open>\<^verbatim>\<open>mesh.forEachFace\<close>: the callback on every face, in order.\<close>

fun forEachFace :: "host \<Rightarrow> Mesh \<Rightarrow> meshLocals \<Rightarrow> glTF \<Rightarrow> Face list \<Rightarrow> meshLocals res" where
  "forEachFace h mesh st g [] = Ok st g"
| "forEachFace h mesh st g (f # fs) =
     (case faceCallback h mesh st g f of
        Err e g1 \<Rightarrow> Err e g1
      | Ok st1 g1 \<Rightarrow> forEachFace h mesh st1 g1 fs)"

text \<open>\<^verbatim>\<open>addMesh\<close> from the creation of the three views to its return.\<close>

definition fillMesh :: "host \<Rightarrow> Mesh \<Rightarrow> nat \<Rightarrow> nat \<Rightarrow> bool \<Rightarrow> glTF \<Rightarrow> nat res" where
  "fillMesh h mesh addedIndex mb singleGLBBuffer g =
     (let (vb, g1) = addBufferView mb FLOAT VEC3 g;
          (vnb, g2) = addBufferView mb FLOAT VEC3 g1;
          (vuv, g3) = addBufferView mb FLOAT VEC2 g2;
          st0 = \<lparr>gltfMesh = addedIndex, meshBuffer = mb, vertexBufferView = vb,
                 vertexNormalBufferView = vnb, vertexUVBufferView = vuv,
                 vertexColorBufferView = None, lastMaterialIndex = None\<rparr>
      in case forEachFace h mesh st0 g3 (mesh_faces mesh) of
           Err e g4 \<Rightarrow> Err e g4
         | Ok st g4 \<Rightarrow>
            (case completeLast h mesh st g4 of
               Err e g5 \<Rightarrow> Err e g5
             | Ok _ g5 \<Rightarrow>
                (let g6 = finalizeView vb g5;
                     g7 = finalizeView vnb g6;
                     g8 = finalizeView vuv g7;
                     g9 = (case vertexColorBufferView st of
                             None \<Rightarrow> g8
                           | Some cv \<Rightarrow> finalizeView cv g8);
                     g10 = (if \<not> singleGLBBuffer then finalizeBuffer mb g9 else g9)
                 in Ok addedIndex g10)))"

definition addMesh :: "host \<Rightarrow> glTF \<Rightarrow> Mesh \<Rightarrow> nat res" where
  "addMesh h gltf mesh =
     (let g0 = gltf\<lparr>meshes := Some (arr (meshes gltf))\<rparr>
      in if mesh_mode mesh \<noteq> TRIANGLES then
           Err (Thrown ''MeshMode other than TRIANGLES not currently supported'') g0
         else
           (case addMaterials h g0 (mesh_material mesh) of
              Err e g1 \<Rightarrow> Err e g1
            | Ok indices g1 \<Rightarrow>
               (let addedIndex = length (arr (meshes g1));
                    g2 = g1\<lparr>meshes := Some (arr (meshes g1) @ [\<lparr>primitives = []\<rparr>])\<rparr>;
                    singleGLBBuffer = (bufferOutputType g2 = BufferGLB)
                in if singleGLBBuffer then
                     (case binChunkBuffer g2 of
                        None \<Rightarrow> Err TypeError g2
                      | Some b \<Rightarrow> fillMesh h mesh addedIndex b singleGLBBuffer g2)
                   else
                     (let (b, g3) = addBuffer g2
                      in fillMesh h mesh addedIndex b singleGLBBuffer g3))))"

section \<open>Nodes and scenes\<close>

text \<open>The entry that \<^verbatim>\<open>addNode\<close> builds before it appends it.\<close>

definition newNode :: "Node \<Rightarrow> glTFNode" where
  "newNode node =
     \<lparr>gn_name = (if node_name node \<noteq> [] then Some (node_name node) else None),
      gn_translation =
        (case getTranslation node of Vector3 x y z \<Rightarrow>
           if x \<noteq> 0 \<or> y \<noteq> 0 \<or> z \<noteq> 0 then Some (toArray3 (getTranslation node)) else None),
      gn_rotation =
        (case getRotationQuaternion node of Quaternion x y z w \<Rightarrow>
           if x \<noteq> 0 \<or> y \<noteq> 0 \<or> z \<noteq> 0 \<or> w \<noteq> 1
           then Some (toArray4 (getRotationQuaternion node)) else None),
      gn_scale =
        (case getScale node of Vector3 x y z \<Rightarrow>
           if x \<noteq> 1 \<or> y \<noteq> 1 \<or> z \<noteq> 1 then Some (toArray3 (getScale node)) else None),
      gn_mesh = None,
      gn_children = None\<rparr>"

definition mapNode :: "nat \<Rightarrow> (glTFNode \<Rightarrow> glTFNode) \<Rightarrow> glTF \<Rightarrow> glTF" where
  "mapNode i f g = g\<lparr>nodes := Some ((arr (nodes g))[i := f (arr (nodes g) ! i)])\<rparr>"

fun addNode :: "host \<Rightarrow> glTF \<Rightarrow> Node \<Rightarrow> nat res"
  and addChildren :: "host \<Rightarrow> nat \<Rightarrow> glTF \<Rightarrow> Node list \<Rightarrow> unit res" where
  "addNode h gltf (Node name translation rotation scale mesh children) =
     (let g1 = gltf\<lparr>nodes := Some (arr (nodes gltf))\<rparr>;
          gltfNode = newNode (Node name translation rotation scale mesh children);
          addedIndex = length (arr (nodes g1));
          g2 = g1\<lparr>nodes := Some (arr (nodes g1) @ [gltfNode])\<rparr>
      in case mesh of
           Some m \<Rightarrow>
             (case addMesh h g2 m of
                Err e g3 \<Rightarrow> Err e g3
              | Ok index g3 \<Rightarrow> Ok addedIndex (mapNode addedIndex (\<lambda>n. n\<lparr>gn_mesh := Some index\<rparr>) g3))
         | None \<Rightarrow>
             (case addChildren h addedIndex g2 children of
                Err e g3 \<Rightarrow> Err e g3
              | Ok _ g3 \<Rightarrow> Ok addedIndex g3))"
| "addChildren h parent g [] = Ok () g"
| "addChildren h parent g (node # rest) =
     (let g1 = mapNode parent (\<lambda>n. n\<lparr>gn_children := Some (arr (gn_children n))\<rparr>) g
      in case addNode h g1 node of
           Err e g2 \<Rightarrow> Err e g2
         | Ok index g2 \<Rightarrow>
             addChildren h parent
               (mapNode parent (\<lambda>n. n\<lparr>gn_children := Some (arr (gn_children n) @ [index])\<rparr>) g2)
               rest)"

text \<open>The callback of \<^verbatim>\<open>scene.forEachNode\<close> in \<^verbatim>\<open>addScene\<close>, on every node in order.\<close>

fun addSceneNodes :: "host \<Rightarrow> glTFScene \<Rightarrow> glTF \<Rightarrow> Node list \<Rightarrow> glTFScene res" where
  "addSceneNodes h gltfScene g [] = Ok gltfScene g"
| "addSceneNodes h gltfScene g (node # rest) =
     (let s1 = gltfScene\<lparr>gsc_nodes := Some (arr (gsc_nodes gltfScene))\<rparr>
      in case addNode h g node of
           Err e g1 \<Rightarrow> Err e g1
         | Ok index g1 \<Rightarrow>
             addSceneNodes h (s1\<lparr>gsc_nodes := Some (arr (gsc_nodes s1) @ [index])\<rparr>) g1 rest)"

definition addScene :: "host \<Rightarrow> glTF \<Rightarrow> Scene \<Rightarrow> unit res" where
  "addScene h gltf sc =
     (let g1 = gltf\<lparr>scenes := Some (arr (scenes gltf))\<rparr>;
          gltfScene = \<lparr>gsc_name = (if scene_name sc \<noteq> [] then Some (scene_name sc) else None),
                       gsc_nodes = None\<rparr>
      in case addSceneNodes h gltfScene g1 (scene_nodes sc) of
           Err e g2 \<Rightarrow> Err e g2
         | Ok s g2 \<Rightarrow> Ok () (g2\<lparr>scenes := Some (arr (scenes g2) @ [s])\<rparr>))"

fun forEachScene :: "host \<Rightarrow> glTF \<Rightarrow> Scene list \<Rightarrow> unit res" where
  "forEachScene h g [] = Ok () g"
| "forEachScene h g (sc # rest) =
     (case addScene h g sc of
        Err e g1 \<Rightarrow> Err e g1
      | Ok _ g1 \<Rightarrow> forEachScene h g1 rest)"

definition addScenes :: "host \<Rightarrow> glTF \<Rightarrow> GLTFAsset \<Rightarrow> unit res" where
  "addScenes h gltf asset =
     (let g1 = gltf\<lparr>scene := Some (defaultScene asset)\<rparr>;
          doingGLB = (bufferOutputType g1 = BufferGLB \<or> imageOutputType g1 = ImageGLB);
          g2 = (if doingGLB then (let (b, g) = addBuffer g1 in g\<lparr>binChunkBuffer := Some b\<rparr>)
                else g1)
      in case forEachScene h g2 (asset_scenes asset) of
           Err e g3 \<Rightarrow> Err e g3
         | Ok _ g3 \<Rightarrow>
             if doingGLB then
               (case binChunkBuffer g3 of
                  None \<Rightarrow> Err TypeError g3
                | Some b \<Rightarrow> Ok () (finalizeBuffer b g3))
             else Ok () g3)"

section \<open>Auxiliary notions and example inputs\<close>

subsection \<open>Results and projections of the document\<close>

text \<open>The document after a call, whether it returned or threw, and the value returned.\<close>

definition stateOf :: "'a res \<Rightarrow> glTF" where
  "stateOf r = (case r of Ok _ g \<Rightarrow> g | Err _ g \<Rightarrow> g)"

definition valueOf :: "'a res \<Rightarrow> 'a option" where
  "valueOf r = (case r of Ok x _ \<Rightarrow> Some x | Err _ _ \<Rightarrow> None)"

text \<open>
  Three groups of fields: what no function below \<^const>\<open>addNode\<close> writes; the two arrays
  that the registration of materials, textures, images and samplers leaves alone; and what
  the filling of a mesh leaves alone.
\<close>

definition upper ::
  "glTF \<Rightarrow> nat option \<times> glTFScene list option \<times> glTFNode list option \<times>
     BufferOutputType \<times> ImageOutputType \<times> nat option" where
  "upper g = (scene g, scenes g, nodes g, bufferOutputType g, imageOutputType g, binChunkBuffer g)"

definition meshSide :: "glTF \<Rightarrow> glTFMesh list option \<times> glTFAccessor list option" where
  "meshSide g = (meshes g, accessors g)"

definition outside ::
  "glTF \<Rightarrow> (nat option \<times> glTFScene list option \<times> glTFNode list option \<times>
     BufferOutputType \<times> ImageOutputType \<times> nat option) \<times>
     glTFMaterial list option \<times> glTFTexture list option \<times> glTFImage list option \<times>
     glTFSampler list option \<times> job list \<times> job list" where
  "outside g = (upper g, materials g, textures g, images g, samplers g, promises g, pending g)"

text \<open>For every view, whether an accessor segment is in progress.\<close>

definition opened :: "glTF \<Rightarrow> bool list" where
  "opened g = map (\<lambda>v. bv_segment v \<noteq> None) (bufferViews g)"

text \<open>The primitives of the mesh entry at an index.\<close>

definition primitivesOf :: "glTF \<Rightarrow> nat \<Rightarrow> glTFMeshPrimitives list" where
  "primitivesOf g m = primitives (arr (meshes g) ! m)"

subsection \<open>Samplers and images\<close>

text \<open>The sampler object that \<^verbatim>\<open>addSampler\<close> builds from a texture.\<close>

definition samplerOf :: "Texture \<Rightarrow> glTFSampler" where
  "samplerOf t = \<lparr>gs_wrapS = wrapS t, gs_wrapT = wrapT t\<rparr>"

text \<open>
  The two tests of the scan of \<^verbatim>\<open>addImage\<close> on one entry, and the property of an entry
  that its \<^verbatim>\<open>uri\<close> is the one of the pass-through handle it is keyed by.
\<close>

definition matchesImage :: "Image \<Rightarrow> glTFImage \<Rightarrow> bool" where
  "matchesImage img x =
     (img = img_extras x \<or>
      (case uri_in img of None \<Rightarrow> False | Some u \<Rightarrow> img_uri x = Some (UriString u)))"

definition keyedByUri :: "glTFImage \<Rightarrow> bool" where
  "keyedByUri x =
     (case uri_in (img_extras x) of None \<Rightarrow> True | Some u \<Rightarrow> img_uri x = Some (UriString u))"

text \<open>
  The container buffer exists whenever one of the two output options asks for it, as
  \<^const>\<open>addScenes\<close> arranges before it walks the scenes.
\<close>

definition containerReady :: "glTF \<Rightarrow> bool" where
  "containerReady g =
     (bufferOutputType g = BufferGLB \<or> imageOutputType g = ImageGLB \<longrightarrow> binChunkBuffer g \<noteq> None)"

text \<open>
  What the registration of samplers, images, textures, materials, meshes, nodes and scenes
  keeps from one document state to a later one: the two output options, the container
  buffer, and the property that every image entry is keyed by its \<^verbatim>\<open>uri\<close>.
\<close>

definition settled :: "glTF \<Rightarrow> glTF \<Rightarrow> bool" where
  "settled g g' =
     (bufferOutputType g' = bufferOutputType g \<and> imageOutputType g' = imageOutputType g \<and>
      binChunkBuffer g' = binChunkBuffer g \<and>
      (list_all keyedByUri (arr (images g)) \<longrightarrow> list_all keyedByUri (arr (images g'))))"

subsection \<open>The face stream of a mesh\<close>

text \<open>
  A material index of a face is usable when it is the negative sentinel or lies inside
  the material array of the mesh; a run of faces carries colours when its material has
  a colouring mode other than \<^const>\<open>NoColors\<close>.
\<close>

definition validIndex :: "Mesh \<Rightarrow> int \<Rightarrow> bool" where
  "validIndex mesh i = (i < 0 \<or> nat i < length (mesh_material mesh))"

definition runColored :: "Mesh \<Rightarrow> int \<Rightarrow> bool" where
  "runColored mesh i = (i \<ge> 0 \<and> hasColors (materialAt mesh i))"

text \<open>
  What is read off a primitive (its material, the keys of its attributes in order, its
  mode) and what the run of faces with a given material index is to produce.
\<close>

definition observed :: "glTFMeshPrimitives \<Rightarrow> int option \<times> string list \<times> MeshMode" where
  "observed p = (prim_material p, map fst (prim_attributes p), prim_mode p)"

definition expected :: "Mesh \<Rightarrow> int \<Rightarrow> int option \<times> string list \<times> MeshMode" where
  "expected mesh i =
     (if i \<ge> 0 then Some i else None,
      [''POSITION'', ''NORMAL'', ''TEXCOORD_0''] @ (if runColored mesh i then [''COLOR_0''] else []),
      mesh_mode mesh)"

text \<open>
  The invariant of the loop over the faces: the views are distinct views of the store,
  the mesh entry exists, and while a run is open its segments are in progress.
\<close>

definition localsOk :: "meshLocals \<Rightarrow> glTF \<Rightarrow> bool" where
  "localsOk st g =
     (let vb = vertexBufferView st; vnb = vertexNormalBufferView st;
          vuv = vertexUVBufferView st; n = length (bufferViews g)
      in vb < n \<and> vnb < n \<and> vuv < n \<and> vb \<noteq> vnb \<and> vb \<noteq> vuv \<and> vnb \<noteq> vuv \<and>
         (case vertexColorBufferView st of
            None \<Rightarrow> True
          | Some c \<Rightarrow> c < n \<and> c \<noteq> vb \<and> c \<noteq> vnb \<and> c \<noteq> vuv) \<and>
         gltfMesh st < length (arr (meshes g)))"

definition loopInv :: "Mesh \<Rightarrow> meshLocals \<Rightarrow> glTF \<Rightarrow> bool" where
  "loopInv mesh st g =
     (localsOk st g \<and>
      (case lastMaterialIndex st of
         None \<Rightarrow> True
       | Some l \<Rightarrow>
           validIndex mesh l \<and> opened g ! vertexBufferView st \<and>
           opened g ! vertexNormalBufferView st \<and> opened g ! vertexUVBufferView st \<and>
           (runColored mesh l \<longrightarrow>
              (case vertexColorBufferView st of None \<Rightarrow> False | Some c \<Rightarrow> opened g ! c))))"

text \<open>The primitive still to be completed, and the runs of a stream after a given index.\<close>

definition pendingRun :: "Mesh \<Rightarrow> int option \<Rightarrow> (int option \<times> string list \<times> MeshMode) list" where
  "pendingRun mesh l0 = (case l0 of None \<Rightarrow> [] | Some l \<Rightarrow> [expected mesh l])"

definition runsFrom :: "int option \<Rightarrow> int list \<Rightarrow> int list" where
  "runsFrom l0 is = (case l0 of None \<Rightarrow> remdups_adj is | Some l \<Rightarrow> remdups_adj (l # is))"

subsection \<open>Colours as the specification words them\<close>

text \<open>
  A component is multiplied by 255 and truncated toward zero; a colour without alpha gets
  alpha 255; a missing colour is black; a face contributes its own colour three times or
  the colours of its three vertices.
\<close>

definition trunc255 :: "host \<Rightarrow> number \<Rightarrow> number" where
  "trunc255 h c =
     (let p = multiply h c 255 in of_int (if p < 0 then \<lceil>p\<rceil> else \<lfloor>p\<rfloor>))"

fun specBytes :: "host \<Rightarrow> Color \<Rightarrow> number list" where
  "specBytes h (RGBColor r g b) = [trunc255 h r, trunc255 h g, trunc255 h b, 255]"
| "specBytes h (RGBAColor r g b a) = [trunc255 h r, trunc255 h g, trunc255 h b, trunc255 h a]"

definition specColor :: "Color option \<Rightarrow> Color" where
  "specColor c = (case c of None \<Rightarrow> RGBColor 0 0 0 | Some col \<Rightarrow> col)"

fun specFaceColors :: "VertexColorMode \<Rightarrow> Face \<Rightarrow> Color list" where
  "specFaceColors NoColors f = []"
| "specFaceColors FaceColors f = replicate 3 (specColor (face_color f))"
| "specFaceColors VertexColors f =
     map (\<lambda>v. specColor (vert_color v)) [face_v1 f, face_v2 f, face_v3 f]"

fun components :: "Color \<Rightarrow> number list" where
  "components (RGBColor r g b) = [r, g, b]"
| "components (RGBAColor r g b a) = [r, g, b, a]"

text \<open>The product of a component and 255, as the host computes it, lies between 0 and 255.\<close>

definition inByteRange :: "host \<Rightarrow> number \<Rightarrow> bool" where
  "inByteRange h c = (0 \<le> multiply h c 255 \<and> multiply h c 255 \<le> 255)"

subsection \<open>Nodes\<close>

definition transformsOf ::
  "glTFNode \<Rightarrow> number list option \<times> number list option \<times> number list option" where
  "transformsOf n = (gn_translation n, gn_rotation n, gn_scale n)"

text \<open>The entries of the node array stay in place and keep their transforms.\<close>

definition keepsNodes :: "glTF \<Rightarrow> glTF \<Rightarrow> bool" where
  "keepsNodes g g' =
     (length (arr (nodes g)) \<le> length (arr (nodes g')) \<and>
      (\<forall>i < length (arr (nodes g)).
         transformsOf (arr (nodes g') ! i) = transformsOf (arr (nodes g) ! i)))"

subsection \<open>The views of the container buffer\<close>

text \<open>
  The views below a position of the store together with the number of buffers, and the
  local variables of \<^verbatim>\<open>addMesh\<close> whose views all lie at or above that position: the
  filling of a mesh writes to its own views only.
\<close>

definition low :: "nat \<Rightarrow> glTF \<Rightarrow> BufferView list \<times> nat" where
  "low n g = (take n (bufferViews g), length (buffers g))"

definition own :: "nat \<Rightarrow> meshLocals \<Rightarrow> bool" where
  "own n st =
     (n \<le> vertexBufferView st \<and> n \<le> vertexNormalBufferView st \<and> n \<le> vertexUVBufferView st \<and>
      (case vertexColorBufferView st of None \<Rightarrow> True | Some c \<Rightarrow> n \<le> c))"

text \<open>
  Every raw image of a document that puts its images into the container still awaits its
  write: its entry names a view of the container buffer, that view has not been sealed,
  and the reaction that writes the encoded bytes into it and then calls
  \<^verbatim>\<open>bufferView.finalize()\<close> has not run yet.
\<close>

definition awaiting :: "glTF \<Rightarrow> bool" where
  "awaiting g =
     (imageOutputType g = ImageGLB \<and>
      (case binChunkBuffer g of
         None \<Rightarrow> False
       | Some b \<Rightarrow>
           b < length (buffers g) \<and>
           list_all (\<lambda>x. uri_in (img_extras x) = None \<longrightarrow>
                      (case img_bufferView x of
                         None \<Rightarrow> False
                       | Some k \<Rightarrow>
                           k < length (bufferViews g) \<and> bv_buffer (bufferViews g ! k) = b \<and>
                           \<not> bv_finalized (bufferViews g ! k) \<and>
                           WriteThenFinalize k (img_extras x) \<in> set (pending g)))
             (arr (images g))))"

subsection \<open>Example inputs\<close>

text \<open>A host whose multiplication is exact.\<close>

definition exampleHost :: host where
  "exampleHost = \<lparr>imageToDataURI = (\<lambda>_. ''data:image/png;base64,''),
                   imageToArrayBuffer = (\<lambda>_. [137, 80, 78, 71]),
                   multiply = (*),
                   normalizedFlag = (\<lambda>c d. c = UNSIGNED_BYTE)\<rparr>"

text \<open>A document on which nothing has been registered yet, with its two output options.\<close>

definition emptyDocument :: "BufferOutputType \<Rightarrow> ImageOutputType \<Rightarrow> glTF" where
  "emptyDocument bo io =
     \<lparr>scene = None, scenes = None, nodes = None, meshes = None, materials = None,
      textures = None, images = None, samplers = None, accessors = None,
      buffers = [], bufferViews = [], bufferOutputType = bo, imageOutputType = io,
      binChunkBuffer = None, promises = [], pending = []\<rparr>"

text \<open>Two textures that differ in their magnification filter only.\<close>

definition textureNearest :: Texture where
  "textureNearest = \<lparr>wrapS = REPEAT, wrapT = CLAMP_TO_EDGE, magFilter = Some 9728,
                      minFilter = None, tex_image = HTMLImage 0\<rparr>"

definition textureLinear :: Texture where
  "textureLinear = \<lparr>wrapS = REPEAT, wrapT = CLAMP_TO_EDGE, magFilter = Some 9729,
                     minFilter = None, tex_image = HTMLImage 0\<rparr>"

text \<open>Meshes of triangles at the origin, given by their materials and material indices.\<close>

definition plainMaterial :: "VertexColorMode \<Rightarrow> Material" where
  "plainMaterial m =
     \<lparr>mat_name = [], alphaMode = OPAQUE, alphaCutoff = 1 / 2, doubleSided = False,
      pbrMetallicRoughness = None, vertexColorMode = m\<rparr>"

definition originVertex :: Vertex where
  "originVertex =
     \<lparr>vert_x = 0, vert_y = 0, vert_z = 0, normalX = 0, normalY = 0, normalZ = 1,
      vert_u = 0, vert_v = 0, vert_color = None\<rparr>"

definition faceOf :: "int \<Rightarrow> Face" where
  "faceOf i =
     \<lparr>face_v1 = originVertex, face_v2 = originVertex, face_v3 = originVertex,
      face_color = None, face_materialIndex = i\<rparr>"

definition meshOf :: "Material list \<Rightarrow> int list \<Rightarrow> Mesh" where
  "meshOf ms is = \<lparr>mesh_material = ms, mesh_mode = TRIANGLES, mesh_faces = map faceOf is\<rparr>"

text \<open>
  A document that holds one mesh with one material, and a second mesh with two materials
  of its own.
\<close>

definition documentWithMesh :: glTF where
  "documentWithMesh =
     stateOf (addMesh exampleHost (emptyDocument BufferDataURI ImageDataURI)
                (meshOf [plainMaterial NoColors] [0]))"

definition secondMesh :: Mesh where
  "secondMesh = meshOf [plainMaterial NoColors, plainMaterial NoColors] [0, 1]"

text \<open>A document with one view for colours, and the locals of a mesh that uses it.\<close>

definition colorDocument :: glTF where
  "colorDocument =
     snd (addBufferView 0 UNSIGNED_BYTE VEC4
            (snd (addBuffer (emptyDocument BufferDataURI ImageDataURI))))"

definition colorLocals :: meshLocals where
  "colorLocals =
     \<lparr>gltfMesh = 0, meshBuffer = 0, vertexBufferView = 1, vertexNormalBufferView = 2,
      vertexUVBufferView = 3, vertexColorBufferView = Some 0, lastMaterialIndex = Some 0\<rparr>"

text \<open>
  An asset of one scene with one node, whose mesh has no faces and one material with a
  base colour texture on a raw image.
\<close>

definition texturedAsset :: GLTFAsset where
  "texturedAsset =
     \<lparr>defaultScene = 0,
      asset_scenes =
        [\<lparr>scene_name = [],
          scene_nodes =
            [Node [] (Vector3 0 0 0) (Quaternion 0 0 0 1) (Vector3 1 1 1)
               (Some (meshOf
                  [(plainMaterial NoColors)
                     \<lparr>pbrMetallicRoughness :=
                        Some \<lparr>pbr_params = [], baseColorTexture = Some textureNearest\<rparr>\<rparr>]
                  []))
               []]\<rparr>]\<rparr>"

section \<open>Sampler registration\<close>

lemma objectsEqual_iff: "objectsEqual a b = (a = b)"
  by (cases a, cases b) (auto simp: objectsEqual_def JSON_stringify_def)

lemma scanSamplers_None: "(scanSamplers s xs i = None) = (s \<notin> set xs)"
  by (induction xs arbitrary: i) (auto simp: objectsEqual_iff)

lemma scanSamplers_Some:
  "scanSamplers s xs i = Some j \<Longrightarrow>
     i \<le> j \<and> j - i < length xs \<and> xs ! (j - i) = s \<and> (\<forall>k < j - i. xs ! k \<noteq> s)"
proof (induction xs arbitrary: i)
  case Nil
  then show ?case by simp
next
  case (Cons x xs)
  show ?case
  proof (cases "s = x")
    case True
    with Cons.prems show ?thesis by (simp add: objectsEqual_iff)
  next
    case False
    with Cons.prems have r: "scanSamplers s xs (Suc i) = Some j"
      by (simp add: objectsEqual_iff)
    from Cons.IH [OF r] have a: "Suc i \<le> j" "j - Suc i < length xs" "xs ! (j - Suc i) = s"
        "\<forall>k < j - Suc i. xs ! k \<noteq> s" by auto
    have e: "j - i = Suc (j - Suc i)" using a(1) by arith
    show ?thesis
      using a False e by (auto simp: nth_Cons split: nat.splits)
  qed
qed

lemma addSampler_result:
  "addSampler g t = (i, g1) \<Longrightarrow>
     i < length (arr (samplers g1)) \<and> arr (samplers g1) ! i = samplerOf t \<and>
     (\<forall>j < i. arr (samplers g1) ! j \<noteq> samplerOf t) \<and>
     (if samplerOf t \<in> set (arr (samplers g)) then arr (samplers g1) = arr (samplers g)
      else i = length (arr (samplers g)) \<and> arr (samplers g1) = arr (samplers g) @ [samplerOf t])"
  unfolding addSampler_def Let_def samplerOf_def [symmetric]
  apply (cases "scanSamplers (samplerOf t) (arr (samplers g)) 0")
   apply (auto simp: arr_def scanSamplers_None nth_append dest!: scanSamplers_Some split: option.splits)
      apply (metis nth_mem)+
  done

text \<open>
  C4 (as the code has it). The sampler object is built from \<^verbatim>\<open>wrapS\<close> and \<^verbatim>\<open>wrapT\<close>
  alone. A texture registered after another one, with any number of samplers registered
  in between, gets the same sampler index exactly when the two textures agree on
  \<^verbatim>\<open>wrapS\<close> and on \<^verbatim>\<open>wrapT\<close>; the filters play no part. When an equal sampler is
  registered already, the index returned is the first one that holds an equal sampler
  and nothing is appended; otherwise the sampler is appended and its index is the
  previous length of the array.
\<close>

theorem addSampler_same_index_iff_wrap:
  assumes "addSampler g t1 = (i1, g1)"
    and "arr (samplers g') = arr (samplers g1) @ ys"
    and "addSampler g' t2 = (i2, g2)"
  shows "(i1 = i2) = (wrapS t1 = wrapS t2 \<and> wrapT t1 = wrapT t2) \<and>
         (if samplerOf t2 \<in> set (arr (samplers g'))
          then i2 < length (arr (samplers g')) \<and> arr (samplers g') ! i2 = samplerOf t2 \<and>
               (\<forall>j < i2. arr (samplers g') ! j \<noteq> samplerOf t2) \<and>
               arr (samplers g2) = arr (samplers g')
          else i2 = length (arr (samplers g')) \<and>
               arr (samplers g2) = arr (samplers g') @ [samplerOf t2])"
proof -
  let ?xs = "arr (samplers g1)" and ?zs = "arr (samplers g')"
  from addSampler_result [OF assms(1)]
  have a: "i1 < length ?xs" "?xs ! i1 = samplerOf t1" "\<forall>j < i1. ?xs ! j \<noteq> samplerOf t1"
    by auto
  from addSampler_result [OF assms(3)]
  have b: "i2 < length (arr (samplers g2))" "arr (samplers g2) ! i2 = samplerOf t2"
      "\<forall>j < i2. arr (samplers g2) ! j \<noteq> samplerOf t2"
      "if samplerOf t2 \<in> set ?zs then arr (samplers g2) = ?zs
       else i2 = length ?zs \<and> arr (samplers g2) = ?zs @ [samplerOf t2]"
    by auto
  have pre: "arr (samplers g2) ! j = ?xs ! j" if "j < length ?xs" for j
    using b(4) assms(2) that by (auto simp: nth_append split: if_splits)
  have eq: "(samplerOf t1 = samplerOf t2) = (wrapS t1 = wrapS t2 \<and> wrapT t1 = wrapT t2)"
    by (auto simp: samplerOf_def)
  have "(i1 = i2) = (samplerOf t1 = samplerOf t2)"
  proof
    assume "i1 = i2"
    then show "samplerOf t1 = samplerOf t2" using a b pre by metis
  next
    assume e: "samplerOf t1 = samplerOf t2"
    have "\<not> i1 < i2" using b(3) a(1,2) pre e by metis
    moreover have "\<not> i2 < i1"
    proof
      assume l: "i2 < i1"
      then have "i2 < length ?xs" using a(1) by simp
      then have "?xs ! i2 = samplerOf t2" using pre b(2) by metis
      then show False using a(3) l e by metis
    qed
    ultimately show "i1 = i2" by arith
  qed
  then have first: "(i1 = i2) = (wrapS t1 = wrapS t2 \<and> wrapT t1 = wrapT t2)"
    using eq by simp
  show ?thesis
  proof (cases "samplerOf t2 \<in> set ?zs")
    case True
    then show ?thesis using first b by auto
  next
    case False
    then show ?thesis using first b by auto
  qed
qed

text \<open>
  The two example textures, registered one after the other on an empty document: the
  second registration finds the sampler of the first.
\<close>

theorem addSampler_same_index_iff_wrap_witness:
  "fst (addSampler (snd (addSampler (emptyDocument BufferDataURI ImageDataURI) textureNearest))
          textureLinear) = 0 \<and>
   arr (samplers (snd (addSampler (snd (addSampler (emptyDocument BufferDataURI ImageDataURI)
          textureNearest)) textureLinear))) = [samplerOf textureNearest]"
proof -
  let ?g = "emptyDocument BufferDataURI ImageDataURI"
  let ?r1 = "addSampler ?g textureNearest"
  let ?r2 = "addSampler (snd ?r1) textureLinear"
  have h1: "?r1 = (0, snd ?r1)"
    by (simp add: addSampler_def emptyDocument_def arr_def)
  have h2: "arr (samplers (snd ?r1)) = arr (samplers (snd ?r1)) @ []"
    by simp
  have h3: "?r2 = (fst ?r2, snd ?r2)"
    by simp
  have s: "arr (samplers (snd ?r1)) = [samplerOf textureNearest]"
    by (simp add: addSampler_def emptyDocument_def arr_def samplerOf_def)
  have e: "samplerOf textureLinear = samplerOf textureNearest"
    by (simp add: samplerOf_def textureLinear_def textureNearest_def)
  from addSampler_same_index_iff_wrap [OF h1 h2 h3] s e
  show ?thesis
    by (simp add: textureLinear_def textureNearest_def)
qed

text \<open>
  C4 as the specification states it fails: the two example textures are not equal on
  every sampler field, since their magnification filters differ, and yet they are given
  the same sampler index.
\<close>

theorem addSampler_ignores_filters_counterexample:
  "fst (addSampler (emptyDocument BufferDataURI ImageDataURI) textureNearest) =
   fst (addSampler (snd (addSampler (emptyDocument BufferDataURI ImageDataURI) textureNearest))
          textureLinear) \<and>
   magFilter textureNearest \<noteq> magFilter textureLinear"
  by (simp add: addSampler_def emptyDocument_def arr_def objectsEqual_iff
      textureLinear_def textureNearest_def)

section \<open>Image registration\<close>

lemma scanImages_None: "(scanImages a xs i = None) = (\<forall>x \<in> set xs. \<not> matchesImage a x)"
  by (induction xs arbitrary: i) (auto simp: matchesImage_def)

lemma scanImages_Some:
  "scanImages a xs i = Some j \<Longrightarrow>
     i \<le> j \<and> j - i < length xs \<and> matchesImage a (xs ! (j - i)) \<and>
     (\<forall>k < j - i. \<not> matchesImage a (xs ! k))"
proof (induction xs arbitrary: i)
  case Nil
  then show ?case by simp
next
  case (Cons x xs)
  show ?case
  proof (cases "matchesImage a x")
    case True
    with Cons.prems show ?thesis by (auto simp: matchesImage_def split: if_splits option.splits)
  next
    case False
    with Cons.prems have r: "scanImages a xs (Suc i) = Some j"
      by (auto simp: matchesImage_def split: if_splits)
    from Cons.IH [OF r] have b: "Suc i \<le> j" "j - Suc i < length xs"
        "matchesImage a (xs ! (j - Suc i))" "\<forall>k < j - Suc i. \<not> matchesImage a (xs ! k)"
      by auto
    have e: "j - i = Suc (j - Suc i)" using b(1) by arith
    show ?thesis
      using b False e by (auto simp: nth_Cons split: nat.splits)
  qed
qed

lemma scanImages_first:
  assumes "k < length xs" "matchesImage a (xs ! k)" "\<forall>j < k. \<not> matchesImage a (xs ! j)"
  shows "scanImages a xs 0 = Some k"
proof (cases "scanImages a xs 0")
  case None
  then show ?thesis using assms by (auto simp: scanImages_None)
next
  case (Some j)
  from scanImages_Some [OF Some]
  have "j < length xs" "matchesImage a (xs ! j)" "\<forall>k < j. \<not> matchesImage a (xs ! k)"
    by auto
  with assms have "j = k" by (metis linorder_neqE_nat)
  with Some show ?thesis by simp
qed

lemma addImage_found:
  "scanImages a (arr (images g)) 0 = Some i \<Longrightarrow>
   addImage h g a = Ok i (g\<lparr>images := Some (arr (images g))\<rparr>)"
  by (simp add: addImage_def arr_def)

lemma addImage_Ok:
  assumes "addImage h g a = Ok i g1"
  shows "(scanImages a (arr (images g)) 0 = Some i \<and> arr (images g1) = arr (images g)) \<or>
         (scanImages a (arr (images g)) 0 = None \<and> i = length (arr (images g)) \<and>
          (\<exists>e. arr (images g1) = arr (images g) @ [e] \<and> img_extras e = a \<and> keyedByUri e))"
  using assms
  by (auto simp: addImage_def pushImage_def addBufferView_def arr_def Let_def keyedByUri_def
      split: option.splits ImageOutputType.splits prod.splits)

lemma addImage_new:
  assumes "\<forall>x \<in> set (arr (images g)). \<not> matchesImage a x"
    and "uri_in a = None \<and> imageOutputType g = ImageGLB \<longrightarrow> binChunkBuffer g \<noteq> None"
  shows "\<exists>g1 e. addImage h g a = Ok (length (arr (images g))) g1 \<and>
           arr (images g1) = arr (images g) @ [e] \<and> img_extras e = a"
proof -
  have n: "scanImages a (arr (images g)) 0 = None"
    using assms(1) by (simp add: scanImages_None)
  show ?thesis
    using assms(2) n
    by (cases a; cases "imageOutputType g"; cases "binChunkBuffer g")
      (simp_all add: addImage_def pushImage_def addBufferView_def arr_def Let_def
        split: option.splits)
qed

section \<open>What the operations leave alone\<close>

lemma stateOf_simps [simp]: "stateOf (Ok x g) = g" "stateOf (Err e g) = g"
  by (simp_all add: stateOf_def)

lemma valueOf_simps [simp]: "valueOf (Ok x g) = Some x" "valueOf (Err e g) = None"
  by (simp_all add: valueOf_def)

lemma upper_addSampler [simp]: "upper (snd (addSampler g t)) = upper g"
  by (simp add: addSampler_def upper_def Let_def split: option.splits)

lemma meshSide_addSampler [simp]: "meshSide (snd (addSampler g t)) = meshSide g"
  by (simp add: addSampler_def meshSide_def Let_def split: option.splits)

lemma upper_addBufferView [simp]: "upper (snd (addBufferView b c d g)) = upper g"
  by (simp add: addBufferView_def upper_def Let_def)

lemma meshSide_addBufferView [simp]: "meshSide (snd (addBufferView b c d g)) = meshSide g"
  by (simp add: addBufferView_def meshSide_def Let_def)

lemma upper_addImage [simp]: "upper (stateOf (addImage h g a)) = upper g"
  by (simp add: addImage_def pushImage_def addBufferView_def upper_def Let_def
      split: option.splits ImageOutputType.splits)

lemma meshSide_addImage [simp]: "meshSide (stateOf (addImage h g a)) = meshSide g"
  by (simp add: addImage_def pushImage_def addBufferView_def meshSide_def Let_def
      split: option.splits ImageOutputType.splits)

lemma upper_addTexture [simp]: "upper (stateOf (addTexture h g t)) = upper g"
proof -
  obtain s g2 where s: "addSampler (g\<lparr>textures := Some (arr (textures g))\<rparr>) t = (s, g2)"
    by (cases "addSampler (g\<lparr>textures := Some (arr (textures g))\<rparr>) t")
  have u2: "upper g2 = upper g"
    using upper_addSampler [of "g\<lparr>textures := Some (arr (textures g))\<rparr>" t] s
    by (simp add: upper_def)
  have "upper (stateOf (addImage h g2 (tex_image t))) = upper g2" by simp
  then show ?thesis
    using s u2 by (cases "addImage h g2 (tex_image t)") (simp_all add: addTexture_def upper_def)
qed

lemma meshSide_addTexture [simp]: "meshSide (stateOf (addTexture h g t)) = meshSide g"
proof -
  obtain s g2 where s: "addSampler (g\<lparr>textures := Some (arr (textures g))\<rparr>) t = (s, g2)"
    by (cases "addSampler (g\<lparr>textures := Some (arr (textures g))\<rparr>) t")
  have u2: "meshSide g2 = meshSide g"
    using meshSide_addSampler [of "g\<lparr>textures := Some (arr (textures g))\<rparr>" t] s
    by (simp add: meshSide_def)
  have "meshSide (stateOf (addImage h g2 (tex_image t))) = meshSide g2" by simp
  then show ?thesis
    using s u2 by (cases "addImage h g2 (tex_image t)") (simp_all add: addTexture_def meshSide_def)
qed

lemma upper_addMaterial [simp]: "upper (stateOf (addMaterial h g m)) = upper g"
proof -
  let ?g1 = "g\<lparr>materials := Some (arr (materials g))\<rparr>"
  have t: "upper (stateOf (addTexture h ?g1 t)) = upper g" for t
    using upper_addTexture [of h ?g1 t] by (simp add: upper_def)
  show ?thesis
  proof (cases "pbrMetallicRoughness m")
    case None
    then show ?thesis by (simp add: addMaterial_def upper_def)
  next
    case (Some pbr)
    show ?thesis
    proof (cases "baseColorTexture pbr")
      case None
      then show ?thesis using Some by (simp add: addMaterial_def upper_def)
    next
      case (Some tx)
      then show ?thesis using \<open>pbrMetallicRoughness m = Some pbr\<close> t [of tx]
        by (cases "addTexture h ?g1 tx") (simp_all add: addMaterial_def upper_def)
    qed
  qed
qed

lemma meshSide_addMaterial [simp]: "meshSide (stateOf (addMaterial h g m)) = meshSide g"
proof -
  let ?g1 = "g\<lparr>materials := Some (arr (materials g))\<rparr>"
  have t: "meshSide (stateOf (addTexture h ?g1 t)) = meshSide g" for t
    using meshSide_addTexture [of h ?g1 t] by (simp add: meshSide_def)
  show ?thesis
  proof (cases "pbrMetallicRoughness m")
    case None
    then show ?thesis by (simp add: addMaterial_def meshSide_def)
  next
    case (Some pbr)
    show ?thesis
    proof (cases "baseColorTexture pbr")
      case None
      then show ?thesis using Some by (simp add: addMaterial_def meshSide_def)
    next
      case (Some tx)
      then show ?thesis using \<open>pbrMetallicRoughness m = Some pbr\<close> t [of tx]
        by (cases "addTexture h ?g1 tx") (simp_all add: addMaterial_def meshSide_def)
    qed
  qed
qed

lemma upper_addMaterialsFrom [simp]: "upper (stateOf (addMaterialsFrom h acc g ms)) = upper g"
proof (induction ms arbitrary: acc g)
  case Nil
  then show ?case by simp
next
  case (Cons m ms)
  have "upper (stateOf (addMaterial h g m)) = upper g" by simp
  then show ?case using Cons.IH
    by (cases "addMaterial h g m") simp_all
qed

lemma meshSide_addMaterialsFrom [simp]:
  "meshSide (stateOf (addMaterialsFrom h acc g ms)) = meshSide g"
proof (induction ms arbitrary: acc g)
  case Nil
  then show ?case by simp
next
  case (Cons m ms)
  have "meshSide (stateOf (addMaterial h g m)) = meshSide g" by simp
  then show ?case using Cons.IH
    by (cases "addMaterial h g m") simp_all
qed

lemma outside_upper: "outside g' = outside g \<Longrightarrow> upper g' = upper g"
  by (simp add: outside_def)

lemma mapView_frame [simp]:
  "outside (mapView k f g) = outside g"
  "meshes (mapView k f g) = meshes g"
  "accessors (mapView k f g) = accessors g"
  "buffers (mapView k f g) = buffers g"
  by (simp_all add: mapView_def outside_def upper_def)

lemma opened_mapView:
  "opened (mapView k f g) = (opened g)[k := bv_segment (f (bufferViews g ! k)) \<noteq> None]"
  by (simp add: mapView_def opened_def map_update)

lemma push_frame [simp]:
  "outside (push k x g) = outside g"
  "meshes (push k x g) = meshes g"
  "accessors (push k x g) = accessors g"
  "buffers (push k x g) = buffers g"
  by (simp_all add: push_def)

lemma opened_mapView_same:
  assumes "\<And>v. bv_segment (f v) = bv_segment v"
  shows "opened (mapView k f g) = opened g"
proof -
  have "bv_segment ((bufferViews g)[k := f (bufferViews g ! k)] ! i) =
        bv_segment (bufferViews g ! i)" if "i < length (bufferViews g)" for i
    using that assms by (cases "i = k") simp_all
  then show ?thesis
    unfolding opened_def mapView_def by (intro nth_equalityI) simp_all
qed

lemma opened_push [simp]: "opened (push k x g) = opened g"
  by (simp add: push_def opened_mapView_same)

lemma startAccessor_frame [simp]:
  "outside (startAccessor k n g) = outside g"
  "meshes (startAccessor k n g) = meshes g"
  "accessors (startAccessor k n g) = accessors g"
  "buffers (startAccessor k n g) = buffers g"
  by (simp_all add: startAccessor_def)

lemma opened_startAccessor [simp]: "opened (startAccessor k n g) = (opened g)[k := True]"
  by (simp add: startAccessor_def opened_mapView)

lemma finalizeView_frame [simp]:
  "outside (finalizeView k g) = outside g"
  "meshes (finalizeView k g) = meshes g"
  "accessors (finalizeView k g) = accessors g"
  "opened (finalizeView k g) = opened g"
  by (simp_all add: finalizeView_def opened_mapView_same)

lemma finalizeBuffer_frame [simp]:
  "outside (finalizeBuffer b g) = outside g"
  "meshes (finalizeBuffer b g) = meshes g"
  "accessors (finalizeBuffer b g) = accessors g"
  "bufferViews (finalizeBuffer b g) = bufferViews g"
  by (simp_all add: finalizeBuffer_def outside_def upper_def)

lemma addAccessor_frame [simp]:
  "outside (snd (addAccessor g k i)) = outside g"
  "meshes (snd (addAccessor g k i)) = meshes g"
  "bufferViews (snd (addAccessor g k i)) = bufferViews g"
  "buffers (snd (addAccessor g k i)) = buffers g"
  by (simp_all add: addAccessor_def outside_def upper_def Let_def)

lemma opened_addAccessor [simp]: "opened (snd (addAccessor g k i)) = opened g"
  by (simp add: opened_def)

lemma addBufferView_frame [simp]:
  "outside (snd (addBufferView b c d g)) = outside g"
  "meshes (snd (addBufferView b c d g)) = meshes g"
  "accessors (snd (addBufferView b c d g)) = accessors g"
  "fst (addBufferView b c d g) = length (bufferViews g)"
  by (simp_all add: addBufferView_def outside_def upper_def Let_def)

lemma opened_addBufferView [simp]:
  "opened (snd (addBufferView b c d g)) = opened g @ [False]"
  by (simp add: addBufferView_def opened_def Let_def)

lemma length_opened [simp]: "length (opened g) = length (bufferViews g)"
  by (simp add: opened_def)

lemma addBuffer_frame [simp]:
  "outside (snd (addBuffer g)) = outside g"
  "meshes (snd (addBuffer g)) = meshes g"
  "accessors (snd (addBuffer g)) = accessors g"
  "bufferViews (snd (addBuffer g)) = bufferViews g"
  "fst (addBuffer g) = length (buffers g)"
  by (simp_all add: addBuffer_def outside_def upper_def)

lemma pushPrimitive_frame [simp]:
  "outside (pushPrimitive m p g) = outside g"
  "accessors (pushPrimitive m p g) = accessors g"
  "bufferViews (pushPrimitive m p g) = bufferViews g"
  by (simp_all add: pushPrimitive_def outside_def upper_def)

lemma opened_pushPrimitive [simp]: "opened (pushPrimitive m p g) = opened g"
  by (simp add: opened_def)

lemma meshes_pushPrimitive:
  "arr (meshes (pushPrimitive m p g)) =
     (arr (meshes g))[m := (arr (meshes g) ! m)\<lparr>primitives := primitives (arr (meshes g) ! m) @ [p]\<rparr>]"
  by (simp add: pushPrimitive_def arr_def)

lemma endAccessor_Some:
  assumes "endAccessor h k g = Some (i, g')"
  shows "outside g' = outside g" "meshes g' = meshes g" "accessors g' = accessors g"
    "opened g' = (opened g)[k := False]"
  using assms
  by (auto simp: endAccessor_def opened_mapView split: option.splits)

lemma endAccessor_open:
  assumes "k < length (bufferViews g)" "opened g ! k"
  shows "\<exists>i g'. endAccessor h k g = Some (i, g')"
  using assms by (auto simp: endAccessor_def opened_def split: option.splits)

lemma pushAll_frame [simp]:
  "outside (pushAll k xs g) = outside g"
  "meshes (pushAll k xs g) = meshes g"
  "accessors (pushAll k xs g) = accessors g"
  "opened (pushAll k xs g) = opened g"
  unfolding pushAll_def
  by (induction xs arbitrary: g) simp_all

lemma pushVertexData_frame [simp]:
  "outside (pushVertexData st f g) = outside g"
  "meshes (pushVertexData st f g) = meshes g"
  "accessors (pushVertexData st f g) = accessors g"
  "opened (pushVertexData st f g) = opened g"
  by (simp_all add: pushVertexData_def Let_def)

lemma addColor_frame [simp]:
  "outside (addColorToBufferView h k c g) = outside g"
  "meshes (addColorToBufferView h k c g) = meshes g"
  "accessors (addColorToBufferView h k c g) = accessors g"
  "opened (addColorToBufferView h k c g) = opened g"
  by (cases c; simp)+

lemma addColors_frame [simp]:
  "outside (foldl (\<lambda>g c. addColorToBufferView h k c g) g cs) = outside g"
  "meshes (foldl (\<lambda>g c. addColorToBufferView h k c g) g cs) = meshes g"
  "accessors (foldl (\<lambda>g c. addColorToBufferView h k c g) g cs) = accessors g"
  "opened (foldl (\<lambda>g c. addColorToBufferView h k c g) g cs) = opened g"
  by (induction cs arbitrary: g) simp_all

lemma length_bufferViews_ops [simp]:
  "length (bufferViews (mapView k f g)) = length (bufferViews g)"
  "length (bufferViews (push k x g)) = length (bufferViews g)"
  "length (bufferViews (startAccessor k n g)) = length (bufferViews g)"
  "length (bufferViews (finalizeView k g)) = length (bufferViews g)"
  "length (bufferViews (snd (addBufferView b c d g))) = Suc (length (bufferViews g))"
  by (simp_all add: mapView_def push_def startAccessor_def finalizeView_def addBufferView_def
      Let_def)

section \<open>Colours\<close>

lemma toInt32_small: "0 \<le> p \<Longrightarrow> p \<le> 255 \<Longrightarrow> toInt32 p = \<lfloor>p\<rfloor> \<and> 0 \<le> \<lfloor>p\<rfloor> \<and> \<lfloor>p\<rfloor> \<le> 255"
proof -
  assume a: "0 \<le> p" "p \<le> 255"
  have f0: "0 \<le> \<lfloor>p\<rfloor>" using a(1) by simp
  have f1: "\<lfloor>p\<rfloor> \<le> 255" using a(2) by (simp add: floor_le_iff) 
  have m: "\<lfloor>p\<rfloor> mod 4294967296 = \<lfloor>p\<rfloor>" using f0 f1 by simp
  show ?thesis using a f0 f1 m by (simp add: toInt32_def Let_def)
qed

lemma quantize_inByteRange:
  "inByteRange h c \<Longrightarrow> quantize h c = trunc255 h c \<and> 0 \<le> quantize h c \<and> quantize h c \<le> 255"
  using toInt32_small [of "multiply h c 255"]
  by (auto simp: inByteRange_def quantize_def trunc255_def Let_def)

lemma bv_data_mapView:
  "k < length (bufferViews g) \<Longrightarrow>
   bv_data (bufferViews (mapView k f g) ! j) =
     (if j = k then bv_data (f (bufferViews g ! k)) else bv_data (bufferViews g ! j))"
  by (simp add: mapView_def nth_list_update)

lemma push_data:
  "k < length (bufferViews g) \<Longrightarrow>
   bv_data (bufferViews (push k x g) ! k) = bv_data (bufferViews g ! k) @ [x]"
  by (simp add: push_def bv_data_mapView)

lemma addColor_data:
  assumes "k < length (bufferViews g)" "list_all (inByteRange h) (components col)"
  shows "bv_data (bufferViews (addColorToBufferView h k col g) ! k) =
           bv_data (bufferViews g ! k) @ specBytes h col"
  using assms by (cases col) (simp_all add: push_data quantize_inByteRange)

lemma length_bufferViews_addColor [simp]:
  "length (bufferViews (addColorToBufferView h k col g)) = length (bufferViews g)"
  by (cases col) simp_all

lemma addColors_data:
  assumes "k < length (bufferViews g)" "list_all (\<lambda>col. list_all (inByteRange h) (components col)) cs"
  shows "bv_data (bufferViews (foldl (\<lambda>g c. addColorToBufferView h k c g) g cs) ! k) =
           bv_data (bufferViews g ! k) @ concat (map (specBytes h) cs)"
  using assms
proof (induction cs arbitrary: g)
  case Nil
  then show ?case by simp
next
  case (Cons c cs)
  then show ?case by (simp add: addColor_data)
qed

lemma faceColors_spec: "faceColors m f = specFaceColors m f"
  by (cases m) (simp_all add: orDefault_def specColor_def new_RGBColor_def numeral_3_eq_3
      split: option.splits)

lemma specBytes_range:
  "list_all (inByteRange h) (components col) \<Longrightarrow> list_all (\<lambda>b. 0 \<le> b \<and> b \<le> 255) (specBytes h col)"
  using quantize_inByteRange by (cases col) force+

section \<open>The loop over the faces\<close>

lemma completeMeshPrimitive_ok:
  assumes inv: "loopInv mesh st g" and last: "lastMaterialIndex st = Some l"
  shows "\<exists>p g'. completeMeshPrimitive h mesh st l g = Ok p g' \<and> observed p = expected mesh l \<and>
           outside g' = outside g \<and> meshes g' = meshes g \<and>
           length (bufferViews g') = length (bufferViews g)"
proof -
  let ?vb = "vertexBufferView st" and ?vnb = "vertexNormalBufferView st"
    and ?vuv = "vertexUVBufferView st"
  let ?n = "length (bufferViews g)"
  from inv last have b: "?vb < ?n" "?vnb < ?n" "?vuv < ?n" "?vb \<noteq> ?vnb" "?vb \<noteq> ?vuv" "?vnb \<noteq> ?vuv"
    and op: "opened g ! ?vb" "opened g ! ?vnb" "opened g ! ?vuv"
    and valid: "validIndex mesh l"
    by (simp_all add: loopInv_def localsOk_def Let_def)
  from endAccessor_open [OF b(1) op(1)] obtain i1 g1 where e1: "endAccessor h ?vb g = Some (i1, g1)"
    by blast
  note f1 = endAccessor_Some [OF e1]
  have n1: "length (bufferViews g1) = ?n"
    using f1(4) by (metis length_list_update length_opened)
  have "opened g1 ! ?vnb" using f1(4) op(2) b by simp
  with endAccessor_open [of ?vnb g1 h] b n1 obtain i2 g2
    where e2: "endAccessor h ?vnb g1 = Some (i2, g2)" by auto
  note f2 = endAccessor_Some [OF e2]
  have n2: "length (bufferViews g2) = ?n"
    using f2(4) n1 by (metis length_list_update length_opened)
  have "opened g2 ! ?vuv" using f1(4) f2(4) op(3) b by simp
  with endAccessor_open [of ?vuv g2 h] b n2 obtain i3 g3
    where e3: "endAccessor h ?vuv g2 = Some (i3, g3)" by auto
  note f3 = endAccessor_Some [OF e3]
  have n3: "length (bufferViews g3) = ?n"
    using f3(4) n2 by (metis length_list_update length_opened)
  obtain a4 g4 where a4: "addAccessor g3 ?vb i1 = (a4, g4)" by (cases "addAccessor g3 ?vb i1")
  obtain a5 g5 where a5: "addAccessor g4 ?vnb i2 = (a5, g5)" by (cases "addAccessor g4 ?vnb i2")
  obtain a6 g6 where a6: "addAccessor g5 ?vuv i3 = (a6, g6)" by (cases "addAccessor g5 ?vuv i3")
  have g46: "g4 = snd (addAccessor g3 ?vb i1)" "g5 = snd (addAccessor g4 ?vnb i2)"
      "g6 = snd (addAccessor g5 ?vuv i3)"
    using a4 a5 a6 by simp_all
  have o6: "outside g6 = outside g" "meshes g6 = meshes g" "length (bufferViews g6) = ?n"
    "opened g6 = (opened g)[?vb := False, ?vnb := False, ?vuv := False]"
    using f1 f2 f3 n3 by (simp_all add: g46)
  let ?prim = "\<lparr>prim_attributes = [(''POSITION'', a4), (''NORMAL'', a5), (''TEXCOORD_0'', a6)],
                 prim_mode = mesh_mode mesh, prim_material = None\<rparr>"
  have unfold: "completeMeshPrimitive h mesh st l g =
     (if l \<ge> 0 then
             (case materialAt mesh l of
                None \<Rightarrow> Err TypeError g6
              | Some material \<Rightarrow>
                 if vertexColorMode material \<noteq> NoColors then
                   (case vertexColorBufferView st of
                      None \<Rightarrow> Err TypeError g6
                    | Some cv \<Rightarrow>
                       (case endAccessor h cv g6 of
                          None \<Rightarrow> Err TypeError g6
                        | Some (colorInfo, g7) \<Rightarrow>
                           (let (color, g8) = addAccessor g7 cv colorInfo
                            in Ok (?prim\<lparr>prim_material := Some l,
                                     prim_attributes := prim_attributes ?prim @ [(''COLOR_0'', color)]\<rparr>)
                                  g8)))
                 else Ok (?prim\<lparr>prim_material := Some l\<rparr>) g6)
           else Ok ?prim g6)"
    by (simp add: completeMeshPrimitive_def e1 e2 e3 a4 a5 a6 Let_def)
  show ?thesis
  proof (cases "l \<ge> 0")
    case False
    then show ?thesis using o6
      by (simp add: unfold observed_def expected_def runColored_def)
  next
    case True
    with valid obtain m where m: "materialAt mesh l = Some m"
      by (auto simp: validIndex_def materialAt_def)
    show ?thesis
    proof (cases "vertexColorMode m \<noteq> NoColors")
      case False
      then show ?thesis using o6 True m
        by (simp add: unfold observed_def expected_def runColored_def hasColors_def)
    next
      case col: True
      then have rc: "runColored mesh l" using True m by (simp add: runColored_def hasColors_def)
      with inv last obtain c where c: "vertexColorBufferView st = Some c" "opened g ! c"
          "c < ?n" "c \<noteq> ?vb" "c \<noteq> ?vnb" "c \<noteq> ?vuv"
        by (auto simp: loopInv_def localsOk_def Let_def split: option.splits)
      have "opened g6 ! c" using o6(4) c by simp
      with endAccessor_open [of c g6 h] c o6(3) obtain i7 g7
        where e7: "endAccessor h c g6 = Some (i7, g7)" by auto
      note f7 = endAccessor_Some [OF e7]
      obtain a8 g8 where a8: "addAccessor g7 c i7 = (a8, g8)" by (cases "addAccessor g7 c i7")
      have g8: "g8 = snd (addAccessor g7 c i7)" using a8 by simp
      have n8: "length (bufferViews g8) = ?n"
        using f7(4) o6(3) by (metis addAccessor_frame(3) g8 length_list_update length_opened)
      show ?thesis using o6 True m col c f7 n8
        by (simp add: unfold e7 a8 observed_def expected_def rc) (simp add: g8)
    qed
  qed
qed

lemma localsOk_cong:
  assumes "localsOk st g" "length (bufferViews g') = length (bufferViews g)"
    "length (arr (meshes g')) = length (arr (meshes g))"
  shows "localsOk st g'"
  using assms by (simp add: localsOk_def)

lemma primitivesOf_pushPrimitive:
  "m < length (arr (meshes g)) \<Longrightarrow>
   primitivesOf (pushPrimitive m p g) m = primitivesOf g m @ [p]"
  by (simp add: primitivesOf_def meshes_pushPrimitive)

lemma length_meshes_pushPrimitive [simp]:
  "length (arr (meshes (pushPrimitive m p g))) = length (arr (meshes g))"
  by (simp add: meshes_pushPrimitive)

lemma completeLast_ok:
  assumes inv: "loopInv mesh st g"
  shows "\<exists>g'. completeLast h mesh st g = Ok () g' \<and> outside g' = outside g \<and>
           length (bufferViews g') = length (bufferViews g) \<and>
           length (arr (meshes g')) = length (arr (meshes g)) \<and>
           accessors g' = (if lastMaterialIndex st = None then accessors g else accessors g') \<and>
           map observed (primitivesOf g' (gltfMesh st)) =
             map observed (primitivesOf g (gltfMesh st)) @ pendingRun mesh (lastMaterialIndex st)"
proof (cases "lastMaterialIndex st")
  case None
  then show ?thesis by (simp add: completeLast_def pendingRun_def)
next
  case (Some l)
  from completeMeshPrimitive_ok [OF inv Some, of h] obtain p g1 where
    c: "completeMeshPrimitive h mesh st l g = Ok p g1" "observed p = expected mesh l"
      "outside g1 = outside g" "meshes g1 = meshes g"
      "length (bufferViews g1) = length (bufferViews g)"
    by blast
  have m: "gltfMesh st < length (arr (meshes g1))"
    using inv c(4) by (simp add: loopInv_def localsOk_def Let_def)
  show ?thesis
    using Some c m
    by (simp add: completeLast_def pendingRun_def primitivesOf_pushPrimitive)
      (simp add: primitivesOf_def)
qed

lemma hasColors_current:
  "hasColors (if i \<ge> 0 then materialAt mesh i else None) = runColored mesh i"
  by (simp add: runColored_def hasColors_def)

lemma pushColors_ok:
  assumes "hasColors cm \<longrightarrow> vertexColorBufferView st \<noteq> None"
  shows "\<exists>g'. pushColors h cm st f g = Ok () g' \<and> outside g' = outside g \<and>
           meshes g' = meshes g \<and> accessors g' = accessors g \<and> opened g' = opened g"
proof (cases cm)
  case None
  then show ?thesis by (simp add: pushColors_def)
next
  case (Some m)
  show ?thesis
  proof (cases "vertexColorMode m = NoColors")
    case True
    then show ?thesis using Some by (simp add: pushColors_def)
  next
    case False
    with assms Some obtain c where c: "vertexColorBufferView st = Some c"
      by (auto simp: hasColors_def)
    show ?thesis using Some c
      by (simp add: pushColors_def split: list.splits)
  qed
qed

lemma openRun_ok:
  assumes ok: "localsOk st g" and valid: "validIndex mesh i"
    and def: "(st5, g5) =
       (if runColored mesh i then
          (let (cv, st', g') = ensureColorBufferView st
                 (startAccessor (vertexUVBufferView st) ''TEXCOORD_0''
                   (startAccessor (vertexNormalBufferView st) ''NORMAL''
                     (startAccessor (vertexBufferView st) ''POSITION'' g)))
           in (st', startAccessor cv ''COLOR_0'' g'))
        else (st, startAccessor (vertexUVBufferView st) ''TEXCOORD_0''
                   (startAccessor (vertexNormalBufferView st) ''NORMAL''
                     (startAccessor (vertexBufferView st) ''POSITION'' g))))"
  shows "loopInv mesh (st5\<lparr>lastMaterialIndex := Some i\<rparr>) g5 \<and> outside g5 = outside g \<and>
         meshes g5 = meshes g \<and> gltfMesh st5 = gltfMesh st"
proof -
  let ?vb = "vertexBufferView st" and ?vnb = "vertexNormalBufferView st"
    and ?vuv = "vertexUVBufferView st"
  let ?g4 = "startAccessor ?vuv ''TEXCOORD_0'' (startAccessor ?vnb ''NORMAL''
               (startAccessor ?vb ''POSITION'' g))"
  let ?n = "length (bufferViews g)"
  from ok have b: "?vb < ?n" "?vnb < ?n" "?vuv < ?n" "?vb \<noteq> ?vnb" "?vb \<noteq> ?vuv" "?vnb \<noteq> ?vuv"
      "gltfMesh st < length (arr (meshes g))"
    by (simp_all add: localsOk_def Let_def)
  have o4: "opened ?g4 = (opened g)[?vb := True, ?vnb := True, ?vuv := True]" by simp
  have n4: "length (bufferViews ?g4) = ?n"
    using o4 by (metis length_list_update length_opened)
  show ?thesis
  proof (cases "runColored mesh i")
    case False
    then have e: "st5 = st" "g5 = ?g4" using def by simp_all
    show ?thesis using ok valid False b n4
      by (simp add: e loopInv_def localsOk_def Let_def)
  next
    case True
    show ?thesis
    proof (cases "vertexColorBufferView st")
      case (Some c)
      then have e: "st5 = st" "g5 = startAccessor c ''COLOR_0'' ?g4"
        using def True by (simp_all add: ensureColorBufferView_def)
      from ok Some have cb: "c < ?n" "c \<noteq> ?vb" "c \<noteq> ?vnb" "c \<noteq> ?vuv"
        by (simp_all add: localsOk_def Let_def)
      have o5: "opened g5 = (opened g)[?vb := True, ?vnb := True, ?vuv := True, c := True]"
        by (simp add: e)
      have n5: "length (bufferViews g5) = ?n"
        using o5 by (metis length_list_update length_opened)
      show ?thesis using ok valid b cb Some n5
        by (simp add: e(1) o5 loopInv_def localsOk_def Let_def) (simp add: e(2))
    next
      case None
      let ?r = "addBufferView (meshBuffer st) UNSIGNED_BYTE VEC4 ?g4"
      have e: "st5 = st\<lparr>vertexColorBufferView := Some (fst ?r)\<rparr>"
          "g5 = startAccessor (fst ?r) ''COLOR_0'' (snd ?r)"
        using def True None by (simp_all add: ensureColorBufferView_def split_beta)
      have c: "fst ?r = ?n" using n4 by simp
      have o5: "opened g5 = ((opened g)[?vb := True, ?vnb := True, ?vuv := True] @ [False])[?n := True]"
        by (simp add: e c del: addBufferView_frame(4))
      have n5: "length (bufferViews g5) = Suc ?n"
        using o5 by (metis length_append_singleton length_list_update length_opened)
      show ?thesis using ok valid b None n5
        by (simp add: e(1) c o5 loopInv_def localsOk_def Let_def nth_append nth_list_update)
          (simp add: e(2))
    qed
  qed
qed

lemma loopInv_cong:
  assumes "loopInv mesh st g" "opened g' = opened g" "meshes g' = meshes g"
  shows "loopInv mesh st g'"
proof -
  have "length (bufferViews g') = length (bufferViews g)"
    using assms(2) by (metis length_opened)
  then show ?thesis using assms
    by (auto simp: loopInv_def localsOk_def split: option.splits)
qed

lemma switchRun_ok:
  assumes inv: "loopInv mesh st g" and valid: "validIndex mesh i"
  shows "\<exists>st1 g1.
           (if lastMaterialIndex st \<noteq> Some i
            then startNewAccessors h mesh st g i (if i \<ge> 0 then materialAt mesh i else None)
            else Ok st g) = Ok st1 g1 \<and>
           loopInv mesh st1 g1 \<and> lastMaterialIndex st1 = Some i \<and> gltfMesh st1 = gltfMesh st \<and>
           outside g1 = outside g \<and> length (arr (meshes g1)) = length (arr (meshes g)) \<and>
           map observed (primitivesOf g1 (gltfMesh st)) =
             map observed (primitivesOf g (gltfMesh st)) @
             (if lastMaterialIndex st = Some i then [] else pendingRun mesh (lastMaterialIndex st))"
proof (cases "lastMaterialIndex st = Some i")
  case True
  then show ?thesis using inv by simp
next
  case False
  from completeLast_ok [OF inv, of h] obtain g1 where
    c: "completeLast h mesh st g = Ok () g1" "outside g1 = outside g"
      "length (bufferViews g1) = length (bufferViews g)"
      "length (arr (meshes g1)) = length (arr (meshes g))"
      "map observed (primitivesOf g1 (gltfMesh st)) =
         map observed (primitivesOf g (gltfMesh st)) @ pendingRun mesh (lastMaterialIndex st)"
    by blast
  have ok1: "localsOk st g1"
    using inv c(3,4) by (auto simp: loopInv_def intro: localsOk_cong)
  let ?g4 = "startAccessor (vertexUVBufferView st) ''TEXCOORD_0''
               (startAccessor (vertexNormalBufferView st) ''NORMAL''
                 (startAccessor (vertexBufferView st) ''POSITION'' g1))"
  define r where "r =
       (if runColored mesh i then
          (let (cv, st', g') = ensureColorBufferView st ?g4
           in (st', startAccessor cv ''COLOR_0'' g'))
        else (st, ?g4))"
  have rd: "(fst r, snd r) =
       (if runColored mesh i then
          (let (cv, st', g') = ensureColorBufferView st ?g4
           in (st', startAccessor cv ''COLOR_0'' g'))
        else (st, ?g4))"
    by (simp add: r_def)
  note o = openRun_ok [OF ok1 valid rd]
  have p: "primitivesOf (snd r) (gltfMesh st) = primitivesOf g1 (gltfMesh st)"
    using o by (simp add: primitivesOf_def)
  have "(if lastMaterialIndex st \<noteq> Some i
            then startNewAccessors h mesh st g i (if i \<ge> 0 then materialAt mesh i else None)
            else Ok st g) = Ok ((fst r)\<lparr>lastMaterialIndex := Some i\<rparr>) (snd r)"
    using False c(1) unfolding startNewAccessors_def hasColors_current r_def
    by (simp add: Let_def split_beta)
  then show ?thesis
    using o c False p by (intro exI conjI) (assumption | simp)+
qed

lemma faceCallback_ok:
  assumes inv: "loopInv mesh st g" and valid: "validIndex mesh (face_materialIndex f)"
  shows "\<exists>st' g'. faceCallback h mesh st g f = Ok st' g' \<and> loopInv mesh st' g' \<and>
           lastMaterialIndex st' = Some (face_materialIndex f) \<and> gltfMesh st' = gltfMesh st \<and>
           outside g' = outside g \<and> length (arr (meshes g')) = length (arr (meshes g)) \<and>
           map observed (primitivesOf g' (gltfMesh st)) =
             map observed (primitivesOf g (gltfMesh st)) @
             (if lastMaterialIndex st = Some (face_materialIndex f) then []
              else pendingRun mesh (lastMaterialIndex st))"
proof -
  let ?i = "face_materialIndex f"
  let ?cm = "if ?i \<ge> 0 then materialAt mesh ?i else None"
  from switchRun_ok [OF inv valid, of h] obtain st1 g1 where
    s: "(if lastMaterialIndex st \<noteq> Some ?i
            then startNewAccessors h mesh st g ?i ?cm
            else Ok st g) = Ok st1 g1"
    and i1: "loopInv mesh st1 g1" "lastMaterialIndex st1 = Some ?i" "gltfMesh st1 = gltfMesh st"
      "outside g1 = outside g" "length (arr (meshes g1)) = length (arr (meshes g))"
      "map observed (primitivesOf g1 (gltfMesh st)) =
             map observed (primitivesOf g (gltfMesh st)) @
             (if lastMaterialIndex st = Some ?i then [] else pendingRun mesh (lastMaterialIndex st))"
    by blast
  have cv: "hasColors ?cm \<longrightarrow> vertexColorBufferView st1 \<noteq> None"
    using i1(1,2) unfolding hasColors_current
    by (auto simp: loopInv_def split: option.splits)
  from pushColors_ok [OF cv, of h f "pushVertexData st1 f g1"] obtain g3 where
    p: "pushColors h ?cm st1 f (pushVertexData st1 f g1) = Ok () g3"
      "outside g3 = outside g1" "meshes g3 = meshes g1" "opened g3 = opened g1"
    by auto
  have inv3: "loopInv mesh st1 g3"
    using loopInv_cong [OF i1(1) p(4) p(3)] .
  have fc: "faceCallback h mesh st g f = Ok st1 g3"
    unfolding faceCallback_def Let_def s using p(1) by simp
  show ?thesis
    using fc inv3 i1 p by (simp add: primitivesOf_def)
qed

lemma forEachFace_ok:
  assumes "loopInv mesh st g" "\<forall>f \<in> set fs. validIndex mesh (face_materialIndex f)"
  shows "\<exists>st' g'. forEachFace h mesh st g fs = Ok st' g' \<and> loopInv mesh st' g' \<and>
           gltfMesh st' = gltfMesh st \<and> outside g' = outside g \<and>
           length (arr (meshes g')) = length (arr (meshes g)) \<and>
           map observed (primitivesOf g' (gltfMesh st)) @ pendingRun mesh (lastMaterialIndex st') =
             map observed (primitivesOf g (gltfMesh st)) @
             map (expected mesh) (runsFrom (lastMaterialIndex st) (map face_materialIndex fs))"
  using assms
proof (induction fs arbitrary: st g)
  case Nil
  then show ?case
    by (cases "lastMaterialIndex st") (simp_all add: pendingRun_def runsFrom_def)
next
  case (Cons f fs)
  let ?i = "face_materialIndex f"
  from Cons.prems have v: "validIndex mesh ?i" by simp
  from faceCallback_ok [OF Cons.prems(1) v, of h] obtain st1 g1 where
    c: "faceCallback h mesh st g f = Ok st1 g1" "loopInv mesh st1 g1"
      "lastMaterialIndex st1 = Some ?i" "gltfMesh st1 = gltfMesh st"
      "outside g1 = outside g" "length (arr (meshes g1)) = length (arr (meshes g))"
      "map observed (primitivesOf g1 (gltfMesh st)) =
             map observed (primitivesOf g (gltfMesh st)) @
             (if lastMaterialIndex st = Some ?i then [] else pendingRun mesh (lastMaterialIndex st))"
    by blast
  from Cons.prems have vs: "\<forall>f \<in> set fs. validIndex mesh (face_materialIndex f)" by simp
  from Cons.IH [OF c(2) vs] obtain st' g' where
    r: "forEachFace h mesh st1 g1 fs = Ok st' g'" "loopInv mesh st' g'"
      "gltfMesh st' = gltfMesh st1" "outside g' = outside g1"
      "length (arr (meshes g')) = length (arr (meshes g1))"
      "map observed (primitivesOf g' (gltfMesh st1)) @ pendingRun mesh (lastMaterialIndex st') =
         map observed (primitivesOf g1 (gltfMesh st1)) @
         map (expected mesh) (runsFrom (lastMaterialIndex st1) (map face_materialIndex fs))"
    by blast
  have runs: "(if lastMaterialIndex st = Some ?i then [] else pendingRun mesh (lastMaterialIndex st)) @
        map (expected mesh) (runsFrom (Some ?i) (map face_materialIndex fs)) =
        map (expected mesh) (runsFrom (lastMaterialIndex st) (map face_materialIndex (f # fs)))"
    by (cases "lastMaterialIndex st") (simp_all add: pendingRun_def runsFrom_def)
  have "map observed (primitivesOf g' (gltfMesh st)) @ pendingRun mesh (lastMaterialIndex st') =
        map observed (primitivesOf g (gltfMesh st)) @
        map (expected mesh) (runsFrom (lastMaterialIndex st) (map face_materialIndex (f # fs)))"
    using r(6) c(3,4,7) runs by (simp del: remdups_adj.simps)
  then show ?case
    using c r by simp
qed

section \<open>Adding a mesh\<close>

lemma containerReady_upper: "upper g' = upper g \<Longrightarrow> containerReady g' = containerReady g"
  by (simp add: containerReady_def upper_def)

lemma materials_addSampler [simp]: "materials (snd (addSampler g t)) = materials g"
  by (simp add: addSampler_def Let_def split: option.splits)

lemma materials_addImage [simp]: "materials (stateOf (addImage h g a)) = materials g"
  by (simp add: addImage_def pushImage_def addBufferView_def Let_def
      split: option.splits ImageOutputType.splits)

lemma addImage_ready:
  assumes "containerReady g"
  shows "\<exists>i g'. addImage h g a = Ok i g'"
proof (cases "scanImages a (arr (images g)) 0")
  case (Some i)
  then show ?thesis by (simp add: addImage_def arr_def)
next
  case None
  then show ?thesis using assms
    by (cases a; cases "imageOutputType g"; cases "binChunkBuffer g")
      (simp_all add: addImage_def pushImage_def arr_def containerReady_def split_beta Let_def)
qed

lemma addTexture_ready:
  assumes "containerReady g"
  shows "\<exists>i g'. addTexture h g t = Ok i g' \<and> materials g' = materials g"
proof -
  let ?g1 = "g\<lparr>textures := Some (arr (textures g))\<rparr>"
  obtain s g2 where s: "addSampler ?g1 t = (s, g2)" by (cases "addSampler ?g1 t")
  have u2: "upper g2 = upper g"
    using upper_addSampler [of ?g1 t] s by (simp add: upper_def)
  have m2: "materials g2 = materials g"
    using materials_addSampler [of ?g1 t] s by simp
  have r2: "containerReady g2"
    using assms containerReady_upper [OF u2] by simp
  from addImage_ready [OF r2, of h "tex_image t"] obtain i g3
    where i: "addImage h g2 (tex_image t) = Ok i g3" by blast
  have m3: "materials g3 = materials g"
    using materials_addImage [of h g2 "tex_image t"] i m2 by simp
  have "addTexture h g t = Ok (length (arr (textures g3)))
          (g3\<lparr>textures := Some (arr (textures g3) @ [\<lparr>tex_sampler = s, tex_source = i\<rparr>])\<rparr>)"
    by (simp add: addTexture_def s i)
  then show ?thesis using m3 by simp
qed

lemma addMaterial_ready:
  assumes "containerReady g"
  shows "\<exists>g'. addMaterial h g m = Ok (length (arr (materials g))) g' \<and>
           length (arr (materials g')) = Suc (length (arr (materials g)))"
proof -
  let ?g1 = "g\<lparr>materials := Some (arr (materials g))\<rparr>"
  have r1: "containerReady ?g1" using assms by (simp add: containerReady_def)
  show ?thesis
  proof (cases "pbrMetallicRoughness m")
    case None
    then show ?thesis by (simp add: addMaterial_def arr_def)
  next
    case (Some pbr)
    show ?thesis
    proof (cases "baseColorTexture pbr")
      case None
      then show ?thesis using Some by (simp add: addMaterial_def arr_def)
    next
      case (Some tx)
      from addTexture_ready [OF r1, of h tx] obtain i g2 where
        "addTexture h ?g1 tx = Ok i g2" "materials g2 = materials ?g1" by blast
      then show ?thesis using Some \<open>pbrMetallicRoughness m = Some pbr\<close>
        by (simp add: addMaterial_def arr_def)
    qed
  qed
qed

lemma addMaterialsFrom_ready:
  assumes "containerReady g"
  shows "\<exists>g'. addMaterialsFrom h acc g ms =
             Ok (acc @ [length (arr (materials g)) ..< length (arr (materials g)) + length ms]) g' \<and>
           length (arr (materials g')) = length (arr (materials g)) + length ms"
  using assms
proof (induction ms arbitrary: acc g)
  case Nil
  then show ?case by simp
next
  case (Cons m ms)
  from addMaterial_ready [OF Cons.prems, of h m] obtain g1 where
    a: "addMaterial h g m = Ok (length (arr (materials g))) g1"
      "length (arr (materials g1)) = Suc (length (arr (materials g)))" by blast
  have "upper g1 = upper g" using upper_addMaterial [of h g m] a by simp
  then have r1: "containerReady g1" using Cons.prems containerReady_upper by blast
  from Cons.IH [OF r1, of "acc @ [length (arr (materials g))]"] obtain g' where
    b: "addMaterialsFrom h (acc @ [length (arr (materials g))]) g1 ms =
          Ok ((acc @ [length (arr (materials g))]) @
              [length (arr (materials g1)) ..< length (arr (materials g1)) + length ms]) g'"
      "length (arr (materials g')) = length (arr (materials g1)) + length ms" by blast
  have "[length (arr (materials g)) ..< length (arr (materials g)) + length (m # ms)] =
        length (arr (materials g)) #
        [Suc (length (arr (materials g))) ..< Suc (length (arr (materials g))) + length ms]"
    by (simp add: upt_rec)
  then show ?case using a b by simp
qed

lemma fillMesh_ok:
  assumes m: "addedIndex < length (arr (meshes g))"
    and valid: "\<forall>f \<in> set (mesh_faces mesh). validIndex mesh (face_materialIndex f)"
  shows "\<exists>g'. fillMesh h mesh addedIndex mb single g = Ok addedIndex g' \<and>
           outside g' = outside g \<and> length (arr (meshes g')) = length (arr (meshes g)) \<and>
           map observed (primitivesOf g' addedIndex) =
             map observed (primitivesOf g addedIndex) @
             map (expected mesh) (remdups_adj (map face_materialIndex (mesh_faces mesh)))"
proof -
  let ?n = "length (bufferViews g)"
  let ?g1 = "snd (addBufferView mb FLOAT VEC3 g)"
  let ?g2 = "snd (addBufferView mb FLOAT VEC3 ?g1)"
  let ?g3 = "snd (addBufferView mb FLOAT VEC2 ?g2)"
  let ?st0 = "\<lparr>gltfMesh = addedIndex, meshBuffer = mb, vertexBufferView = ?n,
                 vertexNormalBufferView = Suc ?n, vertexUVBufferView = Suc (Suc ?n),
                 vertexColorBufferView = None, lastMaterialIndex = None\<rparr>"
  have inv0: "loopInv mesh ?st0 ?g3"
    using m by (simp add: loopInv_def localsOk_def)
  from forEachFace_ok [OF inv0 valid, of h] obtain st g4 where
    l: "forEachFace h mesh ?st0 ?g3 (mesh_faces mesh) = Ok st g4" "loopInv mesh st g4"
      "gltfMesh st = addedIndex" "outside g4 = outside ?g3"
      "length (arr (meshes g4)) = length (arr (meshes ?g3))"
      "map observed (primitivesOf g4 addedIndex) @ pendingRun mesh (lastMaterialIndex st) =
         map observed (primitivesOf ?g3 addedIndex) @
         map (expected mesh) (runsFrom None (map face_materialIndex (mesh_faces mesh)))"
    by auto
  from completeLast_ok [OF l(2), of h] obtain g5 where
    c: "completeLast h mesh st g4 = Ok () g5" "outside g5 = outside g4"
      "length (arr (meshes g5)) = length (arr (meshes g4))"
      "map observed (primitivesOf g5 (gltfMesh st)) =
         map observed (primitivesOf g4 (gltfMesh st)) @ pendingRun mesh (lastMaterialIndex st)"
    by blast
  have p3: "primitivesOf ?g3 addedIndex = primitivesOf g addedIndex"
    by (simp add: primitivesOf_def)
  have unfold: "fillMesh h mesh addedIndex mb single g =
      (let g6 = finalizeView ?n g5;
           g7 = finalizeView (Suc ?n) g6;
           g8 = finalizeView (Suc (Suc ?n)) g7;
           g9 = (case vertexColorBufferView st of
                             None \<Rightarrow> g8
                           | Some cv \<Rightarrow> finalizeView cv g8);
           g10 = (if \<not> single then finalizeBuffer mb g9 else g9)
       in Ok addedIndex g10)"
    using l(1) c(1) by (simp add: fillMesh_def split_beta Let_def)
  show ?thesis
    unfolding unfold Let_def
    using l c p3
    by (cases "vertexColorBufferView st") (simp_all add: primitivesOf_def runsFrom_def)
qed

lemma addMesh_ok:
  assumes mode: "mesh_mode mesh = TRIANGLES"
    and ready: "containerReady g"
    and valid: "\<forall>f \<in> set (mesh_faces mesh). validIndex mesh (face_materialIndex f)"
  shows "\<exists>g'. addMesh h g mesh = Ok (length (arr (meshes g))) g' \<and>
           upper g' = upper g \<and> length (arr (meshes g')) = Suc (length (arr (meshes g))) \<and>
           length (arr (materials g')) = length (arr (materials g)) + length (mesh_material mesh) \<and>
           map observed (primitivesOf g' (length (arr (meshes g)))) =
             map (expected mesh) (remdups_adj (map face_materialIndex (mesh_faces mesh)))"
proof -
  let ?g0 = "g\<lparr>meshes := Some (arr (meshes g))\<rparr>"
  let ?n = "length (arr (meshes g))"
  have r0: "containerReady ?g0" using ready by (simp add: containerReady_def)
  from addMaterialsFrom_ready [OF r0, of h "[]" "mesh_material mesh"] obtain g1 where
    a: "addMaterials h ?g0 (mesh_material mesh) =
          Ok [length (arr (materials g)) ..< length (arr (materials g)) + length (mesh_material mesh)] g1"
      "length (arr (materials g1)) = length (arr (materials g)) + length (mesh_material mesh)"
    by (auto simp: addMaterials_def)
  have k1: "upper g1 = upper g"
    using upper_addMaterialsFrom [of h "[]" ?g0 "mesh_material mesh"] a(1)
    by (simp add: addMaterials_def upper_def)
  have k2: "meshSide g1 = meshSide ?g0"
    using arg_cong [OF a(1) [unfolded addMaterials_def], of "\<lambda>r. meshSide (stateOf r)"]
    by simp
  have m1: "arr (meshes g1) = arr (meshes g)" using k2 by (simp add: meshSide_def arr_def)
  let ?g2 = "g1\<lparr>meshes := Some (arr (meshes g1) @ [\<lparr>primitives = []\<rparr>])\<rparr>"
  have u2: "upper ?g2 = upper g" "materials ?g2 = materials g1"
    using k1 by (simp_all add: upper_def)
  have m2: "?n < length (arr (meshes ?g2))" "primitivesOf ?g2 ?n = []"
      "length (arr (meshes ?g2)) = Suc ?n"
    using m1 by (simp_all add: arr_def primitivesOf_def)
  have fill: "\<exists>g'. fillMesh h mesh ?n mb single g2 = Ok ?n g' \<and> upper g' = upper g \<and>
           length (arr (meshes g')) = Suc ?n \<and> materials g' = materials g1 \<and>
           map observed (primitivesOf g' ?n) =
             map (expected mesh) (remdups_adj (map face_materialIndex (mesh_faces mesh)))"
    if "outside g2 = outside ?g2" "meshes g2 = meshes ?g2" for g2 mb single
  proof -
    have lt: "?n < length (arr (meshes g2))" using that m2 by simp
    from fillMesh_ok [OF lt valid, of h mb single] obtain g' where
      f: "fillMesh h mesh ?n mb single g2 = Ok ?n g'" "outside g' = outside g2"
        "length (arr (meshes g')) = length (arr (meshes g2))"
        "map observed (primitivesOf g' ?n) =
           map observed (primitivesOf g2 ?n) @
           map (expected mesh) (remdups_adj (map face_materialIndex (mesh_faces mesh)))"
      by blast
    have "primitivesOf g2 ?n = []" using that m2 by (simp add: primitivesOf_def)
    moreover have "upper g' = upper g" "materials g' = materials g1"
      using f(2) that(1) u2 by (simp_all add: outside_def)
    ultimately show ?thesis using f that m2 by simp
  qed
  show ?thesis
  proof (cases "bufferOutputType g = BufferGLB")
    case True
    with ready obtain b where b: "binChunkBuffer g = Some b"
      by (auto simp: containerReady_def)
    have b1: "bufferOutputType g1 = BufferGLB" "binChunkBuffer g1 = Some b"
      using k1 True b by (simp_all add: upper_def)
    from fill [of ?g2 b True] obtain g' where
      "fillMesh h mesh ?n b True ?g2 = Ok ?n g'" "upper g' = upper g"
      "length (arr (meshes g')) = Suc ?n" "materials g' = materials g1"
      "map observed (primitivesOf g' ?n) =
             map (expected mesh) (remdups_adj (map face_materialIndex (mesh_faces mesh)))"
      by auto
    then show ?thesis using mode a b1 m1
      by (simp add: addMesh_def Let_def)
  next
    case False
    have b1: "bufferOutputType g1 \<noteq> BufferGLB"
      using k1 False by (simp add: upper_def)
    let ?g3 = "snd (addBuffer ?g2)"
    from fill [of ?g3 "fst (addBuffer ?g2)" False] obtain g' where
      "fillMesh h mesh ?n (fst (addBuffer ?g2)) False ?g3 = Ok ?n g'" "upper g' = upper g"
      "length (arr (meshes g')) = Suc ?n" "materials g' = materials g1"
      "map observed (primitivesOf g' ?n) =
             map (expected mesh) (remdups_adj (map face_materialIndex (mesh_faces mesh)))"
      by auto
    then show ?thesis using mode a b1 m1
      by (simp add: addMesh_def Let_def split_beta del: addBuffer_frame(5))
  qed
qed

lemma outside_completeMeshPrimitive [simp]:
  "outside (stateOf (completeMeshPrimitive h mesh st l g)) = outside g"
  by (auto simp: completeMeshPrimitive_def Let_def split_beta
      dest!: endAccessor_Some(1) split: option.splits)

lemma outside_completeLast [simp]: "outside (stateOf (completeLast h mesh st g)) = outside g"
proof (cases "lastMaterialIndex st")
  case None
  then show ?thesis by (simp add: completeLast_def)
next
  case (Some l)
  have "outside (stateOf (completeMeshPrimitive h mesh st l g)) = outside g" by simp
  then show ?thesis using Some
    by (cases "completeMeshPrimitive h mesh st l g") (simp_all add: completeLast_def)
qed

lemma outside_ensureColorBufferView [simp]:
  "outside (snd (snd (ensureColorBufferView st g))) = outside g"
  by (simp add: ensureColorBufferView_def split_beta split: option.splits)

lemma outside_startNewAccessors [simp]:
  "outside (stateOf (startNewAccessors h mesh st g i cm)) = outside g"
proof -
  have "outside (stateOf (completeLast h mesh st g)) = outside g" by simp
  then show ?thesis
    by (cases "completeLast h mesh st g")
      (simp_all add: startNewAccessors_def Let_def split_beta)
qed

lemma outside_pushColors [simp]: "outside (stateOf (pushColors h cm st f g)) = outside g"
  by (simp add: pushColors_def split: option.splits list.splits)

lemma outside_faceCallback [simp]: "outside (stateOf (faceCallback h mesh st g f)) = outside g"
proof -
  let ?i = "face_materialIndex f"
  let ?cm = "if ?i \<ge> 0 then materialAt mesh ?i else None"
  let ?r = "if lastMaterialIndex st \<noteq> Some ?i then startNewAccessors h mesh st g ?i ?cm else Ok st g"
  have a: "outside (stateOf ?r) = outside g" by simp
  show ?thesis
  proof (cases ?r)
    case (Err e g1)
    then show ?thesis using a by (simp add: faceCallback_def Let_def)
  next
    case (Ok st1 g1)
    have "outside (stateOf (pushColors h ?cm st1 f (pushVertexData st1 f g1))) = outside g1"
      by simp
    then show ?thesis using a Ok
      by (cases "pushColors h ?cm st1 f (pushVertexData st1 f g1)")
        (simp_all add: faceCallback_def Let_def)
  qed
qed

lemma outside_forEachFace [simp]: "outside (stateOf (forEachFace h mesh st g fs)) = outside g"
proof (induction fs arbitrary: st g)
  case Nil
  then show ?case by simp
next
  case (Cons f fs)
  have "outside (stateOf (faceCallback h mesh st g f)) = outside g" by simp
  then show ?case using Cons.IH
    by (cases "faceCallback h mesh st g f") simp_all
qed

lemma outside_fillMesh [simp]: "outside (stateOf (fillMesh h mesh n mb single g)) = outside g"
proof -
  let ?g3 = "snd (addBufferView mb FLOAT VEC2 (snd (addBufferView mb FLOAT VEC3
               (snd (addBufferView mb FLOAT VEC3 g)))))"
  let ?st0 = "\<lparr>gltfMesh = n, meshBuffer = mb,
      vertexBufferView = fst (addBufferView mb FLOAT VEC3 g),
      vertexNormalBufferView = fst (addBufferView mb FLOAT VEC3 (snd (addBufferView mb FLOAT VEC3 g))),
      vertexUVBufferView = fst (addBufferView mb FLOAT VEC2 (snd (addBufferView mb FLOAT VEC3
               (snd (addBufferView mb FLOAT VEC3 g))))),
      vertexColorBufferView = None, lastMaterialIndex = None\<rparr>"
  have a: "outside (stateOf (forEachFace h mesh ?st0 ?g3 (mesh_faces mesh))) = outside g"
    by simp
  show ?thesis
  proof (cases "forEachFace h mesh ?st0 ?g3 (mesh_faces mesh)")
    case (Err e g4)
    then show ?thesis using a
      by (simp add: fillMesh_def split_beta Let_def del: addBufferView_frame(4))
  next
    case (Ok st g4)
    have "outside (stateOf (completeLast h mesh st g4)) = outside g4" by simp
    then show ?thesis using a Ok
      by (cases "completeLast h mesh st g4")
        (simp_all add: fillMesh_def split_beta Let_def del: addBufferView_frame(4)
          split: option.splits)
  qed
qed

lemma upper_addMesh [simp]: "upper (stateOf (addMesh h g mesh)) = upper g"
proof -
  let ?g0 = "g\<lparr>meshes := Some (arr (meshes g))\<rparr>"
  have u0: "upper ?g0 = upper g" by (simp add: upper_def)
  have a: "upper (stateOf (addMaterialsFrom h [] ?g0 (mesh_material mesh))) = upper g"
    using u0 by simp
  show ?thesis
  proof (cases "mesh_mode mesh = TRIANGLES")
    case False
    then show ?thesis using u0 by (simp add: addMesh_def Let_def)
  next
    case True
    show ?thesis
    proof (cases "addMaterialsFrom h [] ?g0 (mesh_material mesh)")
      case (Err e g1)
      then show ?thesis using a True by (simp add: addMesh_def Let_def addMaterials_def)
    next
      case (Ok idx g1)
      let ?g2 = "g1\<lparr>meshes := Some (arr (meshes g1) @ [\<lparr>primitives = []\<rparr>])\<rparr>"
      have u2: "upper ?g2 = upper g" using a Ok by (simp add: upper_def)
      have f: "upper (stateOf (fillMesh h mesh n mb single g2)) = upper g"
        if "upper g2 = upper g" for n mb single g2
        using outside_upper [OF outside_fillMesh [of h mesh n mb single g2]] that by simp
      have u3: "upper (snd (addBuffer ?g2)) = upper g"
        using outside_upper [OF addBuffer_frame(1) [of ?g2]] u2 by simp
      show ?thesis using True Ok u2 f u3
        by (simp add: addMesh_def Let_def addMaterials_def split_beta split: option.splits)
    qed
  qed
qed

section \<open>Nodes\<close>

lemma keepsNodes_refl [simp]: "keepsNodes g g"
  by (simp add: keepsNodes_def)

lemma keepsNodes_trans: "keepsNodes g g1 \<Longrightarrow> keepsNodes g1 g2 \<Longrightarrow> keepsNodes g g2"
  by (auto simp: keepsNodes_def)

lemma keepsNodes_same: "nodes g' = nodes g \<Longrightarrow> keepsNodes g g'"
  by (simp add: keepsNodes_def)

lemma keepsNodes_arr: "arr (nodes g') = arr (nodes g) \<Longrightarrow> keepsNodes g g'"
  by (simp add: keepsNodes_def)

lemma keepsNodes_mapNode:
  assumes "\<And>n. transformsOf (f n) = transformsOf n"
  shows "keepsNodes g (mapNode i f g)"
proof -
  have "transformsOf (xs[i := f (xs ! i)] ! j) = transformsOf (xs ! j)" for xs j
    using assms by (cases "i < length xs"; cases "i = j") (simp_all add: list_update_beyond)
  then show ?thesis
    by (simp add: keepsNodes_def mapNode_def arr_def)
qed

lemma keepsNodes_addMesh: "keepsNodes g (stateOf (addMesh h g m))"
  using upper_addMesh [of h g m] by (intro keepsNodes_same) (simp add: upper_def)

lemma addChildren_keeps:
  assumes "\<And>c g. c \<in> set cs \<Longrightarrow> keepsNodes g (stateOf (addNode h g c))"
  shows "keepsNodes g (stateOf (addChildren h p g cs))"
  using assms
proof (induction cs arbitrary: g)
  case Nil
  then show ?case by simp
next
  case (Cons c cs)
  let ?g1 = "mapNode p (\<lambda>n. n\<lparr>gn_children := Some (arr (gn_children n))\<rparr>) g"
  have k1: "keepsNodes g ?g1"
    by (rule keepsNodes_mapNode) (simp add: transformsOf_def)
  have k2: "keepsNodes ?g1 (stateOf (addNode h ?g1 c))"
    using Cons.prems by simp
  show ?case
  proof (cases "addNode h ?g1 c")
    case (Err e g2)
    then show ?thesis using k1 k2 by (auto intro: keepsNodes_trans)
  next
    case (Ok index g2)
    let ?g3 = "mapNode p (\<lambda>n. n\<lparr>gn_children := Some (arr (gn_children n) @ [index])\<rparr>) g2"
    have k3: "keepsNodes g2 ?g3"
      by (rule keepsNodes_mapNode) (simp add: transformsOf_def)
    have k4: "keepsNodes ?g3 (stateOf (addChildren h p ?g3 cs))"
      using Cons.IH Cons.prems by simp
    have "keepsNodes g (stateOf (addChildren h p ?g3 cs))"
      using k1 k2 k3 k4 Ok by (auto intro: keepsNodes_trans)
    then show ?thesis using Ok by simp
  qed
qed

lemma addNode_keeps_entry:
  "keepsNodes g (stateOf (addNode h g node)) \<and>
   length (arr (nodes g)) < length (arr (nodes (stateOf (addNode h g node)))) \<and>
   transformsOf (arr (nodes (stateOf (addNode h g node))) ! length (arr (nodes g))) =
     transformsOf (newNode node)"
proof (induction node arbitrary: g)
  case (Node name t r s m cs)
  let ?node = "Node name t r s m cs"
  let ?n = "length (arr (nodes g))"
  let ?g2 = "g\<lparr>nodes := Some (arr (nodes g) @ [newNode ?node])\<rparr>"
  have k2: "keepsNodes g ?g2"
    by (simp add: keepsNodes_def arr_def nth_append)
  have e2: "?n < length (arr (nodes ?g2))"
      "transformsOf (arr (nodes ?g2) ! ?n) = transformsOf (newNode ?node)"
    by (simp_all add: arr_def)
  have rest: "keepsNodes ?g2 (stateOf (addNode h g ?node))"
  proof (cases m)
    case None
    have "keepsNodes ?g2 (stateOf (addChildren h ?n ?g2 cs))"
      by (rule addChildren_keeps) (use Node.IH in auto)
    then show ?thesis using None
      by (cases "addChildren h ?n ?g2 cs") (simp_all add: arr_def)
  next
    case (Some mesh)
    have a: "keepsNodes ?g2 (stateOf (addMesh h ?g2 mesh))" by (rule keepsNodes_addMesh)
    show ?thesis
    proof (cases "addMesh h ?g2 mesh")
      case (Err e g3)
      then show ?thesis using a Some by (simp add: arr_def)
    next
      case (Ok index g3)
      have "keepsNodes g3 (mapNode ?n (\<lambda>n. n\<lparr>gn_mesh := Some index\<rparr>) g3)"
        by (rule keepsNodes_mapNode) (simp add: transformsOf_def)
      then have "keepsNodes ?g2 (mapNode ?n (\<lambda>n. n\<lparr>gn_mesh := Some index\<rparr>) g3)"
        using a Ok keepsNodes_trans by fastforce
      then show ?thesis using Some Ok
        by (simp add: arr_def Let_def)
    qed
  qed
  show ?case
    using k2 e2 rest by (auto simp: keepsNodes_def intro: keepsNodes_trans)
qed

section \<open>The primitives of a mesh\<close>

lemma observed_fields:
  assumes "map observed ps = map (expected mesh) is"
  shows "map prim_material ps = map (\<lambda>i. if 0 \<le> i then Some i else None) is"
    and "map (\<lambda>p. map fst (prim_attributes p)) ps =
           map (\<lambda>i. [''POSITION'', ''NORMAL'', ''TEXCOORD_0''] @
                     (if runColored mesh i then [''COLOR_0''] else [])) is"
    and "map prim_mode ps = map (\<lambda>i. mesh_mode mesh) is"
proof -
  have "map (fst \<circ> observed) ps = map (fst \<circ> expected mesh) is"
    using assms by (metis map_map)
  then show "map prim_material ps = map (\<lambda>i. if 0 \<le> i then Some i else None) is"
    by (simp add: comp_def observed_def expected_def)
  have "map (fst \<circ> snd \<circ> observed) ps = map (fst \<circ> snd \<circ> expected mesh) is"
    using assms by (metis map_map)
  then show "map (\<lambda>p. map fst (prim_attributes p)) ps =
           map (\<lambda>i. [''POSITION'', ''NORMAL'', ''TEXCOORD_0''] @
                     (if runColored mesh i then [''COLOR_0''] else [])) is"
    by (simp add: comp_def observed_def expected_def)
  have "map (snd \<circ> snd \<circ> observed) ps = map (snd \<circ> snd \<circ> expected mesh) is"
    using assms by (metis map_map)
  then show "map prim_mode ps = map (\<lambda>i. mesh_mode mesh) is"
    by (simp add: comp_def observed_def expected_def)
qed

text \<open>
  C3. A mesh of triangles is added to a document whose container buffer exists when an
  output option needs it, and every face carries a usable material index. Then the mesh
  gets one primitive per maximal run of faces with the same material index, in face
  order: the materials of the primitives are the material indices of the face stream
  with adjacent repetitions removed (a negative index gives a primitive without
  material). In particular a stream with the indices A, B, A, where A and B differ,
  gives exactly three primitives, with the materials A, B, A.
\<close>

theorem addMesh_primitive_per_run:
  assumes "mesh_mode mesh = TRIANGLES"
    and "containerReady g"
    and "\<forall>f \<in> set (mesh_faces mesh). validIndex mesh (face_materialIndex f)"
  shows "\<exists>g'. addMesh h g mesh = Ok (length (arr (meshes g))) g' \<and>
           map prim_material (primitivesOf g' (length (arr (meshes g)))) =
             map (\<lambda>i. if 0 \<le> i then Some i else None)
               (remdups_adj (map face_materialIndex (mesh_faces mesh))) \<and>
           (\<forall>A B. map face_materialIndex (mesh_faces mesh) = [A, B, A] \<and> A \<noteq> B \<longrightarrow>
              map prim_material (primitivesOf g' (length (arr (meshes g)))) =
                [if 0 \<le> A then Some A else None, if 0 \<le> B then Some B else None,
                 if 0 \<le> A then Some A else None])"
proof -
  from addMesh_ok [OF assms, of h] obtain g' where
    a: "addMesh h g mesh = Ok (length (arr (meshes g))) g'"
      "map observed (primitivesOf g' (length (arr (meshes g)))) =
         map (expected mesh) (remdups_adj (map face_materialIndex (mesh_faces mesh)))"
    by blast
  note m = observed_fields(1) [OF a(2)]
  have "map prim_material (primitivesOf g' (length (arr (meshes g)))) =
          [if 0 \<le> A then Some A else None, if 0 \<le> B then Some B else None,
           if 0 \<le> A then Some A else None]"
    if "map face_materialIndex (mesh_faces mesh) = [A, B, A] \<and> A \<noteq> B" for A B
    using m that by simp
  then show ?thesis using a(1) m by blast
qed

text \<open>Two materials and the face stream 0, 1, 0 on an empty document.\<close>

theorem addMesh_primitive_per_run_witness:
  "\<exists>g'. addMesh exampleHost (emptyDocument BufferDataURI ImageDataURI)
           (meshOf [plainMaterial NoColors, plainMaterial FaceColors] [0, 1, 0]) = Ok 0 g' \<and>
         map prim_material (primitivesOf g' 0) = [Some 0, Some 1, Some 0]"
proof -
  let ?g = "emptyDocument BufferDataURI ImageDataURI"
  let ?mesh = "meshOf [plainMaterial NoColors, plainMaterial FaceColors] [0, 1, 0]"
  have h1: "mesh_mode ?mesh = TRIANGLES" by (simp add: meshOf_def)
  have h2: "containerReady ?g" by (simp add: containerReady_def emptyDocument_def)
  have h3: "\<forall>f \<in> set (mesh_faces ?mesh). validIndex ?mesh (face_materialIndex f)"
    by (simp add: meshOf_def validIndex_def faceOf_def)
  have n: "length (arr (meshes ?g)) = 0" by (simp add: emptyDocument_def arr_def)
  have i: "map face_materialIndex (mesh_faces ?mesh) = [0, 1, 0]"
    by (simp add: meshOf_def faceOf_def)
  from addMesh_primitive_per_run [OF h1 h2 h3, of exampleHost]
  show ?thesis unfolding n i by auto
qed

lemma uniform_indices:
  assumes "fs \<noteq> []" "\<forall>f \<in> set fs. face_materialIndex f = s"
  shows "remdups_adj (map face_materialIndex fs) = [s]"
proof -
  have "map face_materialIndex fs = replicate (length fs) s"
    using assms(2) by (simp add: map_replicate_const [symmetric] cong: map_cong)
  then show ?thesis using assms(1) by (simp add: remdups_adj_replicate)
qed

text \<open>
  C5. A mesh of triangles with at least one face, all of whose faces carry the same
  negative material index, gets exactly one primitive; it has no \<^verbatim>\<open>material\<close> and its
  attributes are \<^verbatim>\<open>POSITION\<close>, \<^verbatim>\<open>NORMAL\<close> and \<^verbatim>\<open>TEXCOORD_0\<close>, without \<^verbatim>\<open>COLOR_0\<close>.
\<close>

theorem addMesh_without_material:
  assumes "mesh_mode mesh = TRIANGLES"
    and "containerReady g"
    and "mesh_faces mesh \<noteq> []"
    and "s < 0"
    and "\<forall>f \<in> set (mesh_faces mesh). face_materialIndex f = s"
  shows "\<exists>g' p. addMesh h g mesh = Ok (length (arr (meshes g))) g' \<and>
           primitivesOf g' (length (arr (meshes g))) = [p] \<and>
           prim_material p = None \<and>
           map_of (prim_attributes p) ''COLOR_0'' = None \<and>
           map fst (prim_attributes p) = [''POSITION'', ''NORMAL'', ''TEXCOORD_0'']"
proof -
  have valid: "\<forall>f \<in> set (mesh_faces mesh). validIndex mesh (face_materialIndex f)"
    using assms(4,5) by (simp add: validIndex_def)
  from addMesh_ok [OF assms(1,2) valid, of h] obtain g' where
    a: "addMesh h g mesh = Ok (length (arr (meshes g))) g'"
      "map observed (primitivesOf g' (length (arr (meshes g)))) =
         map (expected mesh) (remdups_adj (map face_materialIndex (mesh_faces mesh)))"
    by blast
  have o: "map observed (primitivesOf g' (length (arr (meshes g)))) = [expected mesh s]"
    using a(2) uniform_indices [OF assms(3,5)] by simp
  then obtain p where p: "primitivesOf g' (length (arr (meshes g))) = [p]"
    "observed p = expected mesh s"
    by (cases "primitivesOf g' (length (arr (meshes g)))") auto
  have k: "prim_material p = None" "map fst (prim_attributes p) = [''POSITION'', ''NORMAL'', ''TEXCOORD_0'']"
    using p(2) assms(4) by (simp_all add: observed_def expected_def runColored_def)
  have "fst ` set (prim_attributes p) = set (map fst (prim_attributes p))"
    by simp
  then have "''COLOR_0'' \<notin> fst ` set (prim_attributes p)"
    unfolding k(2) by simp
  then have c: "map_of (prim_attributes p) ''COLOR_0'' = None"
    by (simp add: map_of_eq_None_iff)
  show ?thesis
    by (intro exI [of _ g'] exI [of _ p] conjI) (fact a(1) p(1) k c)+
qed

text \<open>Two faces with the index -1, in a mesh whose only material asks for face colours.\<close>

theorem addMesh_without_material_witness:
  "\<exists>g' p. addMesh exampleHost (emptyDocument BufferDataURI ImageDataURI)
             (meshOf [plainMaterial FaceColors] [- 1, - 1]) = Ok 0 g' \<and>
           primitivesOf g' 0 = [p] \<and> prim_material p = None \<and>
           map_of (prim_attributes p) ''COLOR_0'' = None"
proof -
  let ?g = "emptyDocument BufferDataURI ImageDataURI"
  let ?mesh = "meshOf [plainMaterial FaceColors] [- 1, - 1]"
  have h1: "mesh_mode ?mesh = TRIANGLES" by (simp add: meshOf_def)
  have h2: "containerReady ?g" by (simp add: containerReady_def emptyDocument_def)
  have h3: "mesh_faces ?mesh \<noteq> []" by (simp add: meshOf_def)
  have h4: "(- 1 :: int) < 0" by simp
  have h5: "\<forall>f \<in> set (mesh_faces ?mesh). face_materialIndex f = - 1"
    by (simp add: meshOf_def faceOf_def)
  have n: "length (arr (meshes ?g)) = 0" by (simp add: emptyDocument_def arr_def)
  from addMesh_without_material [OF h1 h2 h3 h4 h5, of exampleHost]
  show ?thesis unfolding n by blast
qed

lemma fillMesh_empty:
  assumes "mesh_faces mesh = []"
  shows "\<exists>g'. fillMesh h mesh n mb single g = Ok n g' \<and> meshes g' = meshes g \<and>
           accessors g' = accessors g \<and>
           (\<exists>v1 v2 v3. bufferViews g' = bufferViews g @ [v1, v2, v3] \<and>
              list_all (\<lambda>v. bv_data v = [] \<and> bv_segment v = None \<and> bv_finalized v) [v1, v2, v3])"
proof -
  let ?k = "length (bufferViews g)"
  let ?g3 = "snd (addBufferView mb FLOAT VEC2 (snd (addBufferView mb FLOAT VEC3
               (snd (addBufferView mb FLOAT VEC3 g)))))"
  let ?g8 = "finalizeView (Suc (Suc ?k)) (finalizeView (Suc ?k) (finalizeView ?k ?g3))"
  let ?g' = "if \<not> single then finalizeBuffer mb ?g8 else ?g8"
  have r: "fillMesh h mesh n mb single g = Ok n ?g'"
    using assms by (simp add: fillMesh_def completeLast_def split_beta Let_def)
  have f: "meshes ?g' = meshes g" "accessors ?g' = accessors g"
    by simp_all
  have v: "bufferViews ?g' = bufferViews g @
      [\<lparr>bv_buffer = mb, bv_componentType = FLOAT, bv_dataType = VEC3, bv_data = [],
         bv_segment = None, bv_finalized = True\<rparr>,
       \<lparr>bv_buffer = mb, bv_componentType = FLOAT, bv_dataType = VEC3, bv_data = [],
         bv_segment = None, bv_finalized = True\<rparr>,
       \<lparr>bv_buffer = mb, bv_componentType = FLOAT, bv_dataType = VEC2, bv_data = [],
         bv_segment = None, bv_finalized = True\<rparr>]"
    by (simp add: addBufferView_def finalizeView_def mapView_def Let_def nth_append
        list_update_append)
  show ?thesis
    unfolding r using f v by (intro exI conjI) (rule refl | assumption | simp)+
qed

text \<open>
  C10. A mesh of triangles without faces, added to a document whose container buffer
  exists when an output option needs it: the call returns the index of the new mesh
  entry, which is the only entry appended to the meshes and has no primitives; the
  accessors are as before the call; and the three views created for the mesh, the last
  three of the store, hold no component and no segment.
\<close>

theorem addMesh_empty_face_stream:
  assumes "mesh_mode mesh = TRIANGLES"
    and "containerReady g"
    and "mesh_faces mesh = []"
  shows "\<exists>g'. addMesh h g mesh = Ok (length (arr (meshes g))) g' \<and>
           arr (meshes g') = arr (meshes g) @ [\<lparr>primitives = []\<rparr>] \<and>
           accessors g' = accessors g \<and>
           3 \<le> length (bufferViews g') \<and>
           list_all (\<lambda>v. bv_data v = [] \<and> bv_segment v = None \<and> bv_finalized v)
             (drop (length (bufferViews g') - 3) (bufferViews g'))"
proof -
  let ?g0 = "g\<lparr>meshes := Some (arr (meshes g))\<rparr>"
  let ?n = "length (arr (meshes g))"
  have r0: "containerReady ?g0" using assms(2) by (simp add: containerReady_def)
  from addMaterialsFrom_ready [OF r0, of h "[]" "mesh_material mesh"] obtain idx g1 where
    a: "addMaterials h ?g0 (mesh_material mesh) = Ok idx g1"
    by (auto simp: addMaterials_def)
  have k1: "upper g1 = upper g"
    using upper_addMaterialsFrom [of h "[]" ?g0 "mesh_material mesh"] a
    by (simp add: addMaterials_def upper_def)
  have k2: "meshSide g1 = meshSide ?g0"
    using arg_cong [OF a [unfolded addMaterials_def], of "\<lambda>r. meshSide (stateOf r)"]
    by simp
  have m1: "arr (meshes g1) = arr (meshes g)" "accessors g1 = accessors g"
    using k2 by (simp_all add: meshSide_def arr_def)
  let ?g2 = "g1\<lparr>meshes := Some (arr (meshes g1) @ [\<lparr>primitives = []\<rparr>])\<rparr>"
  have fill: "\<exists>g'. fillMesh h mesh ?n mb single g2 = Ok ?n g' \<and>
           arr (meshes g') = arr (meshes g) @ [\<lparr>primitives = []\<rparr>] \<and>
           accessors g' = accessors g \<and> 3 \<le> length (bufferViews g') \<and>
           list_all (\<lambda>v. bv_data v = [] \<and> bv_segment v = None \<and> bv_finalized v)
             (drop (length (bufferViews g') - 3) (bufferViews g'))"
    if "meshes g2 = meshes ?g2" "accessors g2 = accessors ?g2" for g2 mb single
  proof -
    from fillMesh_empty [OF assms(3), of h ?n mb single g2] obtain g' v1 v2 v3 where
      f: "fillMesh h mesh ?n mb single g2 = Ok ?n g'" "meshes g' = meshes g2"
        "accessors g' = accessors g2" "bufferViews g' = bufferViews g2 @ [v1, v2, v3]"
        "list_all (\<lambda>v. bv_data v = [] \<and> bv_segment v = None \<and> bv_finalized v) [v1, v2, v3]"
      by blast
    have "arr (meshes g') = arr (meshes g) @ [\<lparr>primitives = []\<rparr>]"
      using f(2) that(1) m1(1) by (simp add: arr_def)
    moreover have "accessors g' = accessors g" using f(3) that(2) m1(2) by simp
    moreover have "drop (length (bufferViews g') - 3) (bufferViews g') = [v1, v2, v3]"
      using f(4) by simp
    ultimately show ?thesis using f(1,4,5) by simp
  qed
  show ?thesis
  proof (cases "bufferOutputType g = BufferGLB")
    case True
    with assms(2) obtain b where b: "binChunkBuffer g = Some b"
      by (auto simp: containerReady_def)
    have b1: "bufferOutputType g1 = BufferGLB" "binChunkBuffer g1 = Some b"
      using k1 True b by (simp_all add: upper_def)
    from fill [of ?g2 b True] show ?thesis using assms(1) a b1 m1
      by (simp add: addMesh_def Let_def)
  next
    case False
    have b1: "bufferOutputType g1 \<noteq> BufferGLB"
      using k1 False by (simp add: upper_def)
    from fill [of "snd (addBuffer ?g2)" "fst (addBuffer ?g2)" False]
    show ?thesis using assms(1) a b1 m1
      by (simp add: addMesh_def Let_def split_beta del: addBuffer_frame(5))
  qed
qed

text \<open>One material and no face, on an empty document.\<close>

theorem addMesh_empty_face_stream_witness:
  "\<exists>g'. addMesh exampleHost (emptyDocument BufferDataURI ImageDataURI)
           (meshOf [plainMaterial NoColors] []) = Ok 0 g' \<and>
         arr (meshes g') = [\<lparr>primitives = []\<rparr>] \<and> accessors g' = None"
proof -
  let ?g = "emptyDocument BufferDataURI ImageDataURI"
  let ?mesh = "meshOf [plainMaterial NoColors] []"
  have h1: "mesh_mode ?mesh = TRIANGLES" by (simp add: meshOf_def)
  have h2: "containerReady ?g" by (simp add: containerReady_def emptyDocument_def)
  have h3: "mesh_faces ?mesh = []" by (simp add: meshOf_def)
  have n: "arr (meshes ?g) = []" "accessors ?g = None" by (simp_all add: emptyDocument_def arr_def)
  from addMesh_empty_face_stream [OF h1 h2 h3, of exampleHost]
  show ?thesis unfolding n by auto
qed

text \<open>
  C9. For a mesh whose mode is not \<^const>\<open>TRIANGLES\<close>, \<^const>\<open>addMesh\<close> throws, and the
  document it leaves behind is the one it was given, except that an undefined meshes
  array has become the empty array. The exception passes through \<^const>\<open>addNode\<close>, which
  has appended its node entry only: meshes, materials, accessors and views are as before.
\<close>

theorem addMesh_rejects_other_modes:
  assumes "mesh_mode mesh \<noteq> TRIANGLES"
  shows "addMesh h g mesh =
           Err (Thrown ''MeshMode other than TRIANGLES not currently supported'')
             (g\<lparr>meshes := Some (arr (meshes g))\<rparr>) \<and>
         arr (meshes (stateOf (addMesh h g mesh))) = arr (meshes g) \<and>
         (\<exists>g'. addNode h g (Node name t r s (Some mesh) cs) =
                  Err (Thrown ''MeshMode other than TRIANGLES not currently supported'') g' \<and>
               arr (meshes g') = arr (meshes g) \<and> materials g' = materials g \<and>
               accessors g' = accessors g \<and> bufferViews g' = bufferViews g)"
  using assms by (simp add: addMesh_def Let_def arr_def)

text \<open>A mesh with another mode on an empty document.\<close>

theorem addMesh_rejects_other_modes_witness:
  "addMesh exampleHost (emptyDocument BufferDataURI ImageDataURI)
     ((meshOf [plainMaterial NoColors] [0])\<lparr>mesh_mode := OtherMeshMode 1\<rparr>) =
   Err (Thrown ''MeshMode other than TRIANGLES not currently supported'')
     ((emptyDocument BufferDataURI ImageDataURI)\<lparr>meshes := Some []\<rparr>)"
proof -
  let ?mesh = "(meshOf [plainMaterial NoColors] [0])\<lparr>mesh_mode := OtherMeshMode 1\<rparr>"
  have h1: "mesh_mode ?mesh \<noteq> TRIANGLES" by simp
  from addMesh_rejects_other_modes [OF h1, of exampleHost "emptyDocument BufferDataURI ImageDataURI"]
  show ?thesis by (simp add: emptyDocument_def arr_def)
qed

lemma documentWithMesh_facts:
  "containerReady documentWithMesh" "length (arr (meshes documentWithMesh)) = 1"
  "length (arr (materials documentWithMesh)) = 1"
proof -
  let ?g = "emptyDocument BufferDataURI ImageDataURI"
  let ?mesh = "meshOf [plainMaterial NoColors] [0]"
  have h1: "mesh_mode ?mesh = TRIANGLES" by (simp add: meshOf_def)
  have h2: "containerReady ?g" by (simp add: containerReady_def emptyDocument_def)
  have h3: "\<forall>f \<in> set (mesh_faces ?mesh). validIndex ?mesh (face_materialIndex f)"
    by (simp add: meshOf_def validIndex_def faceOf_def)
  from addMesh_ok [OF h1 h2 h3, of exampleHost] obtain g' where
    a: "addMesh exampleHost ?g ?mesh = Ok (length (arr (meshes ?g))) g'" "upper g' = upper ?g"
      "length (arr (meshes g')) = Suc (length (arr (meshes ?g)))"
      "length (arr (materials g')) = length (arr (materials ?g)) + length (mesh_material ?mesh)"
    by blast
  have d: "documentWithMesh = g'" using a(1) by (simp add: documentWithMesh_def)
  show "containerReady documentWithMesh"
    using containerReady_upper [OF a(2)] h2 d by simp
  show "length (arr (meshes documentWithMesh)) = 1"
    using a(3) d by (simp add: emptyDocument_def arr_def)
  show "length (arr (materials documentWithMesh)) = 1"
    using a(4) d by (simp add: emptyDocument_def arr_def meshOf_def)
qed

text \<open>
  C1, evaluated on a document that holds one mesh with one material already. The two
  materials of the second mesh are registered at the document indices 1 and 2, which
  \<^const>\<open>addMaterials\<close> returns and \<^const>\<open>addMesh\<close> drops; the two primitives of the second
  mesh carry the indices 0 and 1 of the mesh's own material array, and index 0 of the
  document is the material of the first mesh.
\<close>

theorem addMesh_material_index_is_local:
  "length (arr (materials documentWithMesh)) = 1 \<and>
   valueOf (addMaterials exampleHost
              (documentWithMesh\<lparr>meshes := Some (arr (meshes documentWithMesh))\<rparr>)
              (mesh_material secondMesh)) = Some [1, 2] \<and>
   valueOf (addMesh exampleHost documentWithMesh secondMesh) = Some 1 \<and>
   map prim_material
     (primitivesOf (stateOf (addMesh exampleHost documentWithMesh secondMesh)) 1) =
     [Some 0, Some 1]"
proof -
  let ?g0 = "documentWithMesh\<lparr>meshes := Some (arr (meshes documentWithMesh))\<rparr>"
  have r0: "containerReady ?g0"
    using documentWithMesh_facts(1) by (simp add: containerReady_def)
  have l0: "length (arr (materials ?g0)) = 1"
    using documentWithMesh_facts(3) by simp
  from addMaterialsFrom_ready [OF r0, of exampleHost "[]" "mesh_material secondMesh"]
  have m: "valueOf (addMaterials exampleHost ?g0 (mesh_material secondMesh)) = Some [1, 2]"
    unfolding l0 by (auto simp: addMaterials_def secondMesh_def meshOf_def upt_rec)
  have h1: "mesh_mode secondMesh = TRIANGLES" by (simp add: secondMesh_def meshOf_def)
  have h3: "\<forall>f \<in> set (mesh_faces secondMesh). validIndex secondMesh (face_materialIndex f)"
    by (simp add: secondMesh_def meshOf_def validIndex_def faceOf_def)
  from addMesh_ok [OF h1 documentWithMesh_facts(1) h3, of exampleHost] obtain g' where
    a: "addMesh exampleHost documentWithMesh secondMesh = Ok 1 g'"
      "map observed (primitivesOf g' 1) =
         map (expected secondMesh) (remdups_adj (map face_materialIndex (mesh_faces secondMesh)))"
    unfolding documentWithMesh_facts(2) by auto
  have i: "map face_materialIndex (mesh_faces secondMesh) = [0, 1]"
    by (simp add: secondMesh_def meshOf_def faceOf_def)
  have p: "map prim_material (primitivesOf g' 1) = [Some 0, Some 1]"
    using observed_fields(1) [OF a(2)] unfolding i by simp
  show ?thesis
    using documentWithMesh_facts(3) m a(1) p by simp
qed

section \<open>Deduplication of images\<close>

lemma addImage_keeps_keyed:
  assumes "list_all keyedByUri (arr (images g))"
  shows "list_all keyedByUri (arr (images (stateOf (addImage h g a))))"
proof (cases "addImage h g a")
  case (Ok i g1)
  from addImage_Ok [OF Ok] show ?thesis using assms Ok by auto
next
  case (Err e g1)
  then have "arr (images g1) = arr (images g)"
    by (auto simp: addImage_def pushImage_def arr_def Let_def split_beta
        split: option.splits ImageOutputType.splits)
  then show ?thesis using assms Err by simp
qed

text \<open>
  C6. In a document whose image entries keyed by a pass-through handle carry the
  \<^verbatim>\<open>uri\<close> of that handle (which \<^const>\<open>addImage\<close> establishes for every entry it appends
  and keeps), let a first registration return an index, and let a second registration
  follow, after any number of further entries, with the identical handle or with a
  pass-through handle of the same \<^verbatim>\<open>uri\<close> when the first is a pass-through handle too.
  Then the second registration returns the index of the first and appends nothing. An
  image that no entry matches is appended, and its index is the previous length of the
  array (when it is a raw image for the container, the container buffer must exist).
\<close>

theorem addImage_dedup:
  assumes wf: "list_all keyedByUri (arr (images g))"
  shows "(\<forall>i g1 (g'::glTF) ys b h'.
            addImage h g a = Ok i g1 \<and> arr (images g') = arr (images g1) @ ys \<and>
            (b = a \<or> (\<exists>u. uri_in a = Some u \<and> uri_in b = Some u)) \<longrightarrow>
            addImage h' g' b = Ok i (g'\<lparr>images := Some (arr (images g'))\<rparr>)) \<and>
         ((\<forall>x \<in> set (arr (images g)). \<not> matchesImage a x) \<and>
          (uri_in a = None \<and> imageOutputType g = ImageGLB \<longrightarrow> binChunkBuffer g \<noteq> None) \<longrightarrow>
          (\<exists>g1 e. addImage h g a = Ok (length (arr (images g))) g1 \<and>
                   arr (images g1) = arr (images g) @ [e] \<and> img_extras e = a))"
proof (intro conjI allI impI)
  fix i g1 and g' :: glTF and ys b h'
  assume A: "addImage h g a = Ok i g1 \<and> arr (images g') = arr (images g1) @ ys \<and>
            (b = a \<or> (\<exists>u. uri_in a = Some u \<and> uri_in b = Some u))"
  let ?xs = "arr (images g)" and ?xs1 = "arr (images g1)" and ?zs = "arr (images g')"
  have fst: "i < length ?xs1 \<and> matchesImage a (?xs1 ! i) \<and>
             (\<forall>j < i. \<not> matchesImage a (?xs1 ! j)) \<and> list_all keyedByUri ?xs1"
  proof -
    from addImage_Ok A consider
      (old) "scanImages a ?xs 0 = Some i" "?xs1 = ?xs"
      | (new) e where "scanImages a ?xs 0 = None" "i = length ?xs" "?xs1 = ?xs @ [e]"
        "img_extras e = a" "keyedByUri e"
      by blast
    then show ?thesis
    proof cases
      case old
      then show ?thesis using scanImages_Some [OF old(1)] wf by simp
    next
      case new
      then show ?thesis using wf
        by (auto simp: scanImages_None nth_append matchesImage_def)
    qed
  qed
  have mb: "matchesImage b x = matchesImage a x" if "keyedByUri x" for x
    using A that
    by (auto simp: matchesImage_def keyedByUri_def split: option.splits)
  have k: "keyedByUri (?xs1 ! j)" if "j \<le> i" for j
    using fst that by (simp add: list_all_length)
  have z: "?zs ! j = ?xs1 ! j" if "j \<le> i" for j
    using A fst that by (simp add: nth_append)
  have "scanImages b ?zs 0 = Some i"
  proof (rule scanImages_first)
    show "i < length ?zs" using A fst by simp
    show "matchesImage b (?zs ! i)" using fst mb k z by simp
    show "\<forall>j < i. \<not> matchesImage b (?zs ! j)" using fst mb k z by simp
  qed
  then show "addImage h' g' b = Ok i (g'\<lparr>images := Some (arr (images g'))\<rparr>)"
    by (rule addImage_found)
next
  assume "(\<forall>x \<in> set (arr (images g)). \<not> matchesImage a x) \<and>
          (uri_in a = None \<and> imageOutputType g = ImageGLB \<longrightarrow> binChunkBuffer g \<noteq> None)"
  then show "\<exists>g1 e. addImage h g a = Ok (length (arr (images g))) g1 \<and>
                   arr (images g1) = arr (images g) @ [e] \<and> img_extras e = a"
    using addImage_new by blast
qed

text \<open>Two pass-through handles with the same \<^verbatim>\<open>uri\<close>, one after the other.\<close>

theorem addImage_dedup_witness:
  "addImage exampleHost
     (stateOf (addImage exampleHost (emptyDocument BufferDataURI ImageDataURI)
                 (UriImage 1 ''a.png'')))
     (UriImage 2 ''a.png'') =
   Ok 0 (stateOf (addImage exampleHost (emptyDocument BufferDataURI ImageDataURI)
                    (UriImage 1 ''a.png'')))"
proof -
  let ?g = "emptyDocument BufferDataURI ImageDataURI"
  let ?a = "UriImage 1 ''a.png''"
  let ?g1 = "?g\<lparr>images := Some [\<lparr>img_extras = ?a, img_uri = Some (UriString ''a.png''),
                                    img_bufferView = None, img_mimeType = None\<rparr>]\<rparr>"
  have wf: "list_all keyedByUri (arr (images ?g))"
    by (simp add: emptyDocument_def arr_def)
  have first: "addImage exampleHost ?g ?a = Ok 0 ?g1"
    by (simp add: addImage_def pushImage_def emptyDocument_def arr_def)
  have ext: "arr (images ?g1) = arr (images ?g1) @ []" by simp
  have same: "UriImage 2 ''a.png'' = ?a \<or>
      (\<exists>u. uri_in ?a = Some u \<and> uri_in (UriImage 2 ''a.png'') = Some u)" by simp
  from addImage_dedup [OF wf, of exampleHost ?a] first ext same
  have "addImage exampleHost ?g1 (UriImage 2 ''a.png'') = Ok 0 (?g1\<lparr>images := Some (arr (images ?g1))\<rparr>)"
    by blast
  then show ?thesis
    unfolding first by (simp add: arr_def)
qed

section \<open>What the walk over the scenes keeps\<close>

text \<open>
  The two properties that the statements on meshes and on images ask of the document hold
  throughout a call of \<^const>\<open>addScenes\<close>: the container buffer is created before the scenes
  are walked whenever an output option asks for it, and no operation of the walk changes the
  options or the container buffer, or breaks the keying of the image entries.
\<close>

lemma settled_refl [simp]: "settled g g"
  by (simp add: settled_def)

lemma settled_trans: "settled g g1 \<Longrightarrow> settled g1 g2 \<Longrightarrow> settled g g2"
  by (simp add: settled_def)

lemma settled_same:
  "upper g' = upper g \<Longrightarrow> arr (images g') = arr (images g) \<Longrightarrow> settled g g'"
  by (simp add: settled_def upper_def)

lemma settled_outside: "outside g' = outside g \<Longrightarrow> settled g g'"
  by (simp add: settled_def outside_def upper_def)

lemma settled_containerReady: "settled g g' \<Longrightarrow> containerReady g' = containerReady g"
  by (simp add: settled_def containerReady_def)

lemma images_addSampler [simp]: "images (snd (addSampler g t)) = images g"
  by (simp add: addSampler_def Let_def split: option.splits)

lemma settled_addImage: "settled g (stateOf (addImage h g a))"
  using upper_addImage [of h g a] addImage_keeps_keyed [of g h a]
  by (simp add: settled_def upper_def)

lemma settled_addTexture: "settled g (stateOf (addTexture h g t))"
proof -
  let ?g1 = "g\<lparr>textures := Some (arr (textures g))\<rparr>"
  obtain s g2 where s: "addSampler ?g1 t = (s, g2)" by (cases "addSampler ?g1 t")
  have u2: "upper g2 = upper g"
    using upper_addSampler [of ?g1 t] s by (simp add: upper_def)
  have i2: "images g2 = images g"
    using images_addSampler [of ?g1 t] s by simp
  have s2: "settled g g2" using u2 i2 by (simp add: settled_same)
  have s3: "settled g (stateOf (addImage h g2 (tex_image t)))"
    by (rule settled_trans [OF s2 settled_addImage])
  show ?thesis
  proof (cases "addImage h g2 (tex_image t)")
    case (Err e g3)
    then have "stateOf (addTexture h g t) = stateOf (addImage h g2 (tex_image t))"
      using s by (simp add: addTexture_def)
    then show ?thesis using s3 by simp
  next
    case (Ok i g3)
    let ?g4 = "g3\<lparr>textures := Some (arr (textures g3) @ [\<lparr>tex_sampler = s, tex_source = i\<rparr>])\<rparr>"
    have "settled g g3" using s3 Ok by simp
    then have "settled g ?g4" by (simp add: settled_def)
    then show ?thesis using s Ok by (simp add: addTexture_def)
  qed
qed

lemma settled_addMaterial: "settled g (stateOf (addMaterial h g m))"
proof -
  let ?g1 = "g\<lparr>materials := Some (arr (materials g))\<rparr>"
  have s1: "settled g ?g1" by (simp add: settled_def)
  have fin: "settled g (g2\<lparr>materials := Some (arr (materials g2) @ [x])\<rparr>)"
    if "settled g g2" for g2 x
    using that by (simp add: settled_def)
  show ?thesis
  proof (cases "pbrMetallicRoughness m")
    case None
    then show ?thesis using fin [OF s1] by (simp add: addMaterial_def)
  next
    case (Some pbr)
    show ?thesis
    proof (cases "baseColorTexture pbr")
      case None
      then show ?thesis using Some fin [OF s1] by (simp add: addMaterial_def)
    next
      case (Some tx)
      have t: "settled g (stateOf (addTexture h ?g1 tx))"
        by (rule settled_trans [OF s1 settled_addTexture])
      show ?thesis
      proof (cases "addTexture h ?g1 tx")
        case (Err e g2)
        then show ?thesis using t Some \<open>pbrMetallicRoughness m = Some pbr\<close>
          by (simp add: addMaterial_def)
      next
        case (Ok i g2)
        then show ?thesis using t fin [of g2] Some \<open>pbrMetallicRoughness m = Some pbr\<close>
          by (simp add: addMaterial_def)
      qed
    qed
  qed
qed

lemma settled_addMaterialsFrom: "settled g (stateOf (addMaterialsFrom h acc g ms))"
proof (induction ms arbitrary: acc g)
  case Nil
  then show ?case by simp
next
  case (Cons m ms)
  have a: "settled g (stateOf (addMaterial h g m))" by (rule settled_addMaterial)
  show ?case
  proof (cases "addMaterial h g m")
    case (Err e g1)
    then show ?thesis using a by simp
  next
    case (Ok i g1)
    have "settled g g1" using a Ok by simp
    then have "settled g (stateOf (addMaterialsFrom h (acc @ [i]) g1 ms))"
      by (rule settled_trans) (rule Cons.IH)
    then show ?thesis using Ok by simp
  qed
qed

lemma settled_addMesh: "settled g (stateOf (addMesh h g mesh))"
proof -
  let ?g0 = "g\<lparr>meshes := Some (arr (meshes g))\<rparr>"
  have s0: "settled g ?g0" by (simp add: settled_def)
  show ?thesis
  proof (cases "mesh_mode mesh = TRIANGLES")
    case False
    then show ?thesis using s0 by (simp add: addMesh_def Let_def)
  next
    case True
    have a: "settled g (stateOf (addMaterialsFrom h [] ?g0 (mesh_material mesh)))"
      by (rule settled_trans [OF s0 settled_addMaterialsFrom])
    show ?thesis
    proof (cases "addMaterialsFrom h [] ?g0 (mesh_material mesh)")
      case (Err e g1)
      then show ?thesis using a True by (simp add: addMesh_def Let_def addMaterials_def)
    next
      case (Ok idx g1)
      let ?g2 = "g1\<lparr>meshes := Some (arr (meshes g1) @ [\<lparr>primitives = []\<rparr>])\<rparr>"
      have s2: "settled g ?g2" using a Ok by (simp add: settled_def)
      have f: "settled g (stateOf (fillMesh h mesh n mb single g2))"
        if "settled g g2" for n mb single g2
        by (rule settled_trans [OF that settled_outside [OF outside_fillMesh]])
      have s3: "settled g (snd (addBuffer ?g2))"
        by (rule settled_trans [OF s2 settled_outside [OF addBuffer_frame(1)]])
      show ?thesis
      proof (cases "binChunkBuffer ?g2")
        case None
        show ?thesis
        proof (cases "bufferOutputType ?g2 = BufferGLB")
          case t: True
          then show ?thesis using True Ok None s2
            by (simp add: addMesh_def Let_def addMaterials_def split_beta)
        next
          case f0: False
          then show ?thesis using True Ok None f [OF s3]
            by (simp add: addMesh_def Let_def addMaterials_def split_beta)
        qed
      next
        case (Some b)
        show ?thesis
        proof (cases "bufferOutputType ?g2 = BufferGLB")
          case t: True
          then show ?thesis using True Ok Some f [OF s2]
            by (simp add: addMesh_def Let_def addMaterials_def split_beta)
        next
          case f0: False
          then show ?thesis using True Ok Some f [OF s3]
            by (simp add: addMesh_def Let_def addMaterials_def split_beta)
        qed
      qed
    qed
  qed
qed

lemma settled_mapNode: "settled g (mapNode i f g)"
  by (simp add: settled_def mapNode_def)

lemma addChildren_settled:
  assumes "\<And>c g. c \<in> set cs \<Longrightarrow> settled g (stateOf (addNode h g c))"
  shows "settled g (stateOf (addChildren h p g cs))"
  using assms
proof (induction cs arbitrary: g)
  case Nil
  then show ?case by simp
next
  case (Cons c cs)
  let ?g1 = "mapNode p (\<lambda>n. n\<lparr>gn_children := Some (arr (gn_children n))\<rparr>) g"
  have k2: "settled g (stateOf (addNode h ?g1 c))"
    by (rule settled_trans [OF settled_mapNode]) (rule Cons.prems, simp)
  show ?case
  proof (cases "addNode h ?g1 c")
    case (Err e g2)
    then show ?thesis using k2 by simp
  next
    case (Ok index g2)
    let ?g3 = "mapNode p (\<lambda>n. n\<lparr>gn_children := Some (arr (gn_children n) @ [index])\<rparr>) g2"
    have "settled g g2" using k2 Ok by simp
    then have "settled g ?g3" by (rule settled_trans) (rule settled_mapNode)
    then have "settled g (stateOf (addChildren h p ?g3 cs))"
      by (rule settled_trans) (rule Cons.IH, rule Cons.prems, simp)
    then show ?thesis using Ok by simp
  qed
qed

lemma settled_addNode: "settled g (stateOf (addNode h g node))"
proof (induction node arbitrary: g)
  case (Node name t r s m cs)
  let ?node = "Node name t r s m cs"
  let ?n = "length (arr (nodes g))"
  let ?g2 = "g\<lparr>nodes := Some (arr (nodes g) @ [newNode ?node])\<rparr>"
  have k2: "settled g ?g2" by (simp add: settled_def)
  have rest: "settled ?g2 (stateOf (addNode h g ?node))"
  proof (cases m)
    case None
    have "settled ?g2 (stateOf (addChildren h ?n ?g2 cs))"
      by (rule addChildren_settled) (rule Node.IH)
    then show ?thesis using None
      by (cases "addChildren h ?n ?g2 cs") (simp_all add: arr_def)
  next
    case (Some mesh)
    have a: "settled ?g2 (stateOf (addMesh h ?g2 mesh))" by (rule settled_addMesh)
    show ?thesis
    proof (cases "addMesh h ?g2 mesh")
      case (Err e g3)
      then show ?thesis using a Some by (simp add: arr_def)
    next
      case (Ok index g3)
      have "settled ?g2 g3" using a Ok by simp
      then have "settled ?g2 (mapNode ?n (\<lambda>n. n\<lparr>gn_mesh := Some index\<rparr>) g3)"
        by (rule settled_trans) (rule settled_mapNode)
      then show ?thesis using Some Ok
        by (simp add: arr_def Let_def)
    qed
  qed
  show ?case
    by (rule settled_trans [OF k2 rest])
qed

lemma settled_addSceneNodes: "settled g (stateOf (addSceneNodes h sc g ns))"
proof (induction ns arbitrary: sc g)
  case Nil
  then show ?case by simp
next
  case (Cons n ns)
  have a: "settled g (stateOf (addNode h g n))" by (rule settled_addNode)
  show ?case
  proof (cases "addNode h g n")
    case (Err e g1)
    then show ?thesis using a by (simp add: Let_def)
  next
    case (Ok i g1)
    have "settled g g1" using a Ok by simp
    then have "settled g (stateOf (addSceneNodes h sc' g1 ns))" for sc'
      by (rule settled_trans) (rule Cons.IH)
    then show ?thesis using Ok by (simp add: Let_def)
  qed
qed

lemma settled_addScene: "settled g (stateOf (addScene h g sc))"
proof -
  let ?g1 = "g\<lparr>scenes := Some (arr (scenes g))\<rparr>"
  let ?s = "\<lparr>gsc_name = (if scene_name sc \<noteq> [] then Some (scene_name sc) else None),
             gsc_nodes = None\<rparr>"
  have s1: "settled g ?g1" by (simp add: settled_def)
  have a: "settled g (stateOf (addSceneNodes h ?s ?g1 (scene_nodes sc)))"
    by (rule settled_trans [OF s1 settled_addSceneNodes])
  show ?thesis
  proof (cases "addSceneNodes h ?s ?g1 (scene_nodes sc)")
    case (Err e g2)
    then show ?thesis using a by (simp add: addScene_def)
  next
    case (Ok s g2)
    then show ?thesis using a by (simp add: addScene_def settled_def)
  qed
qed

lemma settled_forEachScene: "settled g (stateOf (forEachScene h g scs))"
proof (induction scs arbitrary: g)
  case Nil
  then show ?case by simp
next
  case (Cons sc scs)
  have a: "settled g (stateOf (addScene h g sc))" by (rule settled_addScene)
  show ?case
  proof (cases "addScene h g sc")
    case (Err e g1)
    then show ?thesis using a by simp
  next
    case (Ok u g1)
    have "settled g g1" using a Ok by simp
    then have "settled g (stateOf (forEachScene h g1 scs))"
      by (rule settled_trans) (rule Cons.IH)
    then show ?thesis using Ok by simp
  qed
qed

lemma addScenes_walk_ready:
  "containerReady
     (if bufferOutputType g = BufferGLB \<or> imageOutputType g = ImageGLB
      then (let (b, g') = addBuffer (g\<lparr>scene := s\<rparr>) in g'\<lparr>binChunkBuffer := Some b\<rparr>)
      else g\<lparr>scene := s\<rparr>)"
  by (simp add: containerReady_def addBuffer_def)

lemma addScenes_keeps_keyed:
  assumes "list_all keyedByUri (arr (images g))"
  shows "list_all keyedByUri (arr (images (stateOf (addScenes h g asset))))"
proof -
  let ?g1 = "g\<lparr>scene := Some (defaultScene asset)\<rparr>"
  let ?glb = "bufferOutputType ?g1 = BufferGLB \<or> imageOutputType ?g1 = ImageGLB"
  let ?g2 = "if ?glb then (let (b, g') = addBuffer ?g1 in g'\<lparr>binChunkBuffer := Some b\<rparr>) else ?g1"
  have k2: "list_all keyedByUri (arr (images ?g2))"
    using assms by (simp add: addBuffer_def)
  have "settled ?g2 (stateOf (forEachScene h ?g2 (asset_scenes asset)))"
    by (rule settled_forEachScene)
  then have k3: "list_all keyedByUri (arr (images (stateOf (forEachScene h ?g2 (asset_scenes asset)))))"
    using k2 by (simp only: settled_def)
  show ?thesis
  proof (cases "forEachScene h ?g2 (asset_scenes asset)")
    case (Err e g3)
    then show ?thesis using k3 by (simp add: addScenes_def Let_def)
  next
    case (Ok u g3)
    then show ?thesis using k3
      by (simp add: addScenes_def Let_def finalizeBuffer_def split: option.splits)
  qed
qed

section \<open>Quantization of colours\<close>

text \<open>
  C7. For a face whose material has a colouring mode other than \<^const>\<open>NoColors\<close>, the
  callback appends to the colour view, for each of the three colours of the face (the
  face colour three times, or the colours of the three vertices; black when missing),
  the four components red, green, blue, alpha: each is the product with 255 truncated
  toward zero, and alpha is 255 when the colour has none. The products are assumed to lie
  between 0 and 255, as they do for components between 0 and 1, and every value written
  then lies between 0 and 255. When the host multiplies the three components of
  (0.5, 1.0, 0.0) exactly, this colour is written as (127, 255, 0, 255).
\<close>

theorem colors_quantized:
  assumes "vertexColorMode material \<noteq> NoColors"
    and "vertexColorBufferView st = Some cv"
    and "cv < length (bufferViews g)"
    and "list_all (\<lambda>col. list_all (inByteRange h) (components col))
           (specFaceColors (vertexColorMode material) f)"
  shows "(\<exists>g'. pushColors h (Some material) st f g = Ok () g' \<and>
            bv_data (bufferViews g' ! cv) =
              bv_data (bufferViews g ! cv) @
              concat (map (specBytes h) (specFaceColors (vertexColorMode material) f))) \<and>
         list_all (\<lambda>b. 0 \<le> b \<and> b \<le> 255)
           (concat (map (specBytes h) (specFaceColors (vertexColorMode material) f))) \<and>
         (multiply h (1 / 2) 255 = 255 / 2 \<and> multiply h 1 255 = 255 \<and> multiply h 0 255 = 0 \<longrightarrow>
            bv_data (bufferViews (addColorToBufferView h cv (RGBColor (1 / 2) 1 0) g) ! cv) =
              bv_data (bufferViews g ! cv) @ [127, 255, 0, 255])"
proof (intro conjI)
  let ?cs = "specFaceColors (vertexColorMode material) f"
  have ne: "?cs \<noteq> []" using assms(1) by (cases "vertexColorMode material") simp_all
  then obtain c cs where cs: "?cs = c # cs" by (cases ?cs) auto
  have "pushColors h (Some material) st f g =
          Ok () (foldl (\<lambda>g c. addColorToBufferView h cv c g) g ?cs)"
    using assms(2) cs by (simp add: pushColors_def faceColors_spec)
  then show "\<exists>g'. pushColors h (Some material) st f g = Ok () g' \<and>
            bv_data (bufferViews g' ! cv) =
              bv_data (bufferViews g ! cv) @ concat (map (specBytes h) ?cs)"
    using addColors_data [OF assms(3,4)] by simp
  show "list_all (\<lambda>b. 0 \<le> b \<and> b \<le> 255) (concat (map (specBytes h) ?cs))"
    using assms(4) specBytes_range by (force simp: list_all_iff)
  show "multiply h (1 / 2) 255 = 255 / 2 \<and> multiply h 1 255 = 255 \<and> multiply h 0 255 = 0 \<longrightarrow>
            bv_data (bufferViews (addColorToBufferView h cv (RGBColor (1 / 2) 1 0) g) ! cv) =
              bv_data (bufferViews g ! cv) @ [127, 255, 0, 255]"
  proof
    assume e: "multiply h (1 / 2) 255 = 255 / 2 \<and> multiply h 1 255 = 255 \<and> multiply h 0 255 = 0"
    have f: "\<lfloor>(255 :: rat) / 2\<rfloor> = 127" by (rule floor_unique) simp_all
    have r: "list_all (inByteRange h) (components (RGBColor (1 / 2) 1 0))"
      using e by (simp add: inByteRange_def)
    show "bv_data (bufferViews (addColorToBufferView h cv (RGBColor (1 / 2) 1 0) g) ! cv) =
              bv_data (bufferViews g ! cv) @ [127, 255, 0, 255]"
      using addColor_data [OF assms(3) r] e f by (simp add: trunc255_def)
  qed
qed

text \<open>A face of colour (0.5, 1.0, 0.0) without alpha, with face colouring and exact products.\<close>

theorem colors_quantized_witness:
  "\<exists>g'. pushColors exampleHost (Some (plainMaterial FaceColors)) colorLocals
           ((faceOf 0)\<lparr>face_color := Some (RGBColor (1 / 2) 1 0)\<rparr>) colorDocument = Ok () g' \<and>
         bv_data (bufferViews g' ! 0) =
           [127, 255, 0, 255, 127, 255, 0, 255, 127, 255, 0, 255]"
proof -
  let ?f = "(faceOf 0)\<lparr>face_color := Some (RGBColor (1 / 2) 1 0)\<rparr>"
  have h1: "vertexColorMode (plainMaterial FaceColors) \<noteq> NoColors"
    by (simp add: plainMaterial_def)
  have h2: "vertexColorBufferView colorLocals = Some 0" by (simp add: colorLocals_def)
  have h3: "0 < length (bufferViews colorDocument)"
    by (simp add: colorDocument_def)
  have h4: "list_all (\<lambda>col. list_all (inByteRange exampleHost) (components col))
           (specFaceColors (vertexColorMode (plainMaterial FaceColors)) ?f)"
    by (simp add: plainMaterial_def specColor_def inByteRange_def exampleHost_def numeral_3_eq_3)
  have d: "bv_data (bufferViews colorDocument ! 0) = []"
    by (simp add: colorDocument_def addBufferView_def addBuffer_def emptyDocument_def)
  have f: "\<lfloor>(255 :: rat) / 2\<rfloor> = 127" by (rule floor_unique) simp_all
  have b: "concat (map (specBytes exampleHost)
             (specFaceColors (vertexColorMode (plainMaterial FaceColors)) ?f)) =
           [127, 255, 0, 255, 127, 255, 0, 255, 127, 255, 0, 255]"
    using f by (simp add: plainMaterial_def specColor_def trunc255_def exampleHost_def numeral_3_eq_3)
  from colors_quantized [OF h1 h2 h3 h4, of ]
  show ?thesis unfolding d b by auto
qed

section \<open>Transforms of a node\<close>

lemma addNode_index:
  "valueOf (addNode h g node) = None \<or> valueOf (addNode h g node) = Some (length (arr (nodes g)))"
proof (cases node)
  case (Node name t r s m cs)
  show ?thesis
  proof (cases m)
    case None
    then show ?thesis using Node
      by (simp add: arr_def Let_def split: res.splits)
  next
    case (Some mesh)
    then show ?thesis using Node
      by (simp add: arr_def Let_def split: res.splits)
  qed
qed

text \<open>
  C8. Whatever happens below a node (its mesh or its children are added, or an exception
  is thrown there), the entry that \<^const>\<open>addNode\<close> appends for it, at the index it returns,
  has no translation exactly when the translation is (0,0,0), no rotation exactly when
  the rotation is (0,0,0,1), and no scale exactly when the scale is (1,1,1); a transform
  that differs from its identity in any component is there with all its components.
\<close>

theorem addNode_transforms:
  "(let e = arr (nodes (stateOf (addNode h g
               (Node name (Vector3 tx ty tz) (Quaternion rx ry rz rw) (Vector3 sx sy sz) m cs)))) !
            length (arr (nodes g))
    in gn_translation e = (if tx = 0 \<and> ty = 0 \<and> tz = 0 then None else Some [tx, ty, tz]) \<and>
       gn_rotation e =
         (if rx = 0 \<and> ry = 0 \<and> rz = 0 \<and> rw = 1 then None else Some [rx, ry, rz, rw]) \<and>
       gn_scale e = (if sx = 1 \<and> sy = 1 \<and> sz = 1 then None else Some [sx, sy, sz])) \<and>
   (valueOf (addNode h g
       (Node name (Vector3 tx ty tz) (Quaternion rx ry rz rw) (Vector3 sx sy sz) m cs)) = None \<or>
    valueOf (addNode h g
       (Node name (Vector3 tx ty tz) (Quaternion rx ry rz rw) (Vector3 sx sy sz) m cs)) =
      Some (length (arr (nodes g))))"
  using addNode_keeps_entry [of g h
      "Node name (Vector3 tx ty tz) (Quaternion rx ry rz rw) (Vector3 sx sy sz) m cs"]
    addNode_index [of h g
      "Node name (Vector3 tx ty tz) (Quaternion rx ry rz rw) (Vector3 sx sy sz) m cs"]
  by (simp add: newNode_def transformsOf_def Let_def)

text \<open>A node whose scale alone differs from the identity, in its last component.\<close>

theorem addNode_transforms_witness:
  "(let e = arr (nodes (stateOf (addNode exampleHost (emptyDocument BufferDataURI ImageDataURI)
               (Node ''n'' (Vector3 0 0 0) (Quaternion 0 0 0 1) (Vector3 1 1 2) None [])))) ! 0
    in gn_translation e = None \<and> gn_rotation e = None \<and> gn_scale e = Some [1, 1, 2])"
  using addNode_transforms [of exampleHost "emptyDocument BufferDataURI ImageDataURI"
      "''n''" 0 0 0 0 0 0 1 1 1 2 None "[]"]
  by (simp add: emptyDocument_def arr_def Let_def)

section \<open>The container buffer and the image writes\<close>

subsection \<open>The filling of a mesh writes to its own views\<close>

lemma low_mapView [simp]: "n \<le> k \<Longrightarrow> low n (mapView k f g) = low n g"
  by (simp add: low_def mapView_def)

lemma low_push [simp]: "n \<le> k \<Longrightarrow> low n (push k x g) = low n g"
  by (simp add: push_def)

lemma low_startAccessor [simp]: "n \<le> k \<Longrightarrow> low n (startAccessor k name g) = low n g"
  by (simp add: startAccessor_def)

lemma low_finalizeView [simp]: "n \<le> k \<Longrightarrow> low n (finalizeView k g) = low n g"
  by (simp add: finalizeView_def)

lemma low_addBufferView [simp]:
  "n \<le> length (bufferViews g) \<Longrightarrow> low n (snd (addBufferView b c d g)) = low n g"
  by (simp add: low_def addBufferView_def Let_def)

lemma low_addAccessor [simp]: "low n (snd (addAccessor g k i)) = low n g"
  by (simp add: low_def)

lemma low_pushPrimitive [simp]: "low n (pushPrimitive m p g) = low n g"
  by (simp add: low_def pushPrimitive_def)

lemma low_finalizeBuffer [simp]: "low n (finalizeBuffer b g) = low n g"
  by (simp add: low_def finalizeBuffer_def)

lemma low_length:
  assumes "low n g' = low n g" "n \<le> length (bufferViews g)"
  shows "n \<le> length (bufferViews g')"
proof -
  have "length (take n (bufferViews g')) = length (take n (bufferViews g))"
    using assms(1) by (simp add: low_def)
  then show ?thesis using assms(2) by simp
qed

lemma low_endAccessor:
  assumes "endAccessor h k g = Some (i, g')" "n \<le> k"
  shows "low n g' = low n g"
  using assms by (auto simp: endAccessor_def split: option.splits)

lemma low_pushAll [simp]: "n \<le> k \<Longrightarrow> low n (pushAll k xs g) = low n g"
  unfolding pushAll_def by (induction xs arbitrary: g) simp_all

lemma low_pushVertexData [simp]: "own n st \<Longrightarrow> low n (pushVertexData st f g) = low n g"
  by (simp add: pushVertexData_def own_def Let_def)

lemma low_addColor [simp]: "n \<le> k \<Longrightarrow> low n (addColorToBufferView h k c g) = low n g"
  by (cases c) simp_all

lemma low_addColors [simp]:
  "n \<le> k \<Longrightarrow> low n (foldl (\<lambda>g c. addColorToBufferView h k c g) g cs) = low n g"
  by (induction cs arbitrary: g) simp_all

lemma low_pushColors [simp]:
  "own n st \<Longrightarrow> low n (stateOf (pushColors h cm st f g)) = low n g"
  by (auto simp: pushColors_def own_def split: option.splits list.splits)

lemma low_completeMeshPrimitive [simp]:
  "own n st \<Longrightarrow> low n (stateOf (completeMeshPrimitive h mesh st l g)) = low n g"
  by (auto simp: completeMeshPrimitive_def own_def Let_def split_beta low_endAccessor
      split: option.splits)

lemma low_completeLast [simp]:
  assumes "own n st"
  shows "low n (stateOf (completeLast h mesh st g)) = low n g"
proof (cases "lastMaterialIndex st")
  case None
  then show ?thesis by (simp add: completeLast_def)
next
  case (Some l)
  have "low n (stateOf (completeMeshPrimitive h mesh st l g)) = low n g"
    using assms by simp
  then show ?thesis using Some
    by (cases "completeMeshPrimitive h mesh st l g") (simp_all add: completeLast_def)
qed

lemma startNewAccessors_low:
  assumes o: "own n st" and le: "n \<le> length (bufferViews g)"
  shows "low n (stateOf (startNewAccessors h mesh st g i cm)) = low n g"
    and "startNewAccessors h mesh st g i cm = Ok st' g' \<Longrightarrow> own n st'"
proof -
  have a: "low n (stateOf (completeLast h mesh st g)) = low n g"
    using o by simp
  show "low n (stateOf (startNewAccessors h mesh st g i cm)) = low n g"
  proof (cases "completeLast h mesh st g")
    case (Err e g1)
    then show ?thesis using a by (simp add: startNewAccessors_def)
  next
    case (Ok u g1)
    have l1: "n \<le> length (bufferViews g1)"
      using low_length [of n g1 g] a Ok le by simp
    show ?thesis using a Ok o l1
      by (simp add: startNewAccessors_def Let_def split_beta ensureColorBufferView_def own_def
          split: option.splits)
  qed
  show "own n st'" if "startNewAccessors h mesh st g i cm = Ok st' g'"
  proof (cases "completeLast h mesh st g")
    case (Err e g1)
    then show ?thesis using that by (simp add: startNewAccessors_def)
  next
    case (Ok u g1)
    have l1: "n \<le> length (bufferViews g1)"
      using low_length [of n g1 g] a Ok le by simp
    show ?thesis using that Ok o l1
      by (auto simp: startNewAccessors_def Let_def split_beta ensureColorBufferView_def own_def
          split: option.splits if_splits)
  qed
qed

lemma faceCallback_low:
  assumes o: "own n st" and le: "n \<le> length (bufferViews g)"
  shows "low n (stateOf (faceCallback h mesh st g f)) = low n g"
    and "faceCallback h mesh st g f = Ok st' g' \<Longrightarrow> own n st'"
proof -
  let ?i = "face_materialIndex f"
  let ?cm = "if ?i \<ge> 0 then materialAt mesh ?i else None"
  let ?r = "if lastMaterialIndex st \<noteq> Some ?i then startNewAccessors h mesh st g ?i ?cm else Ok st g"
  have a: "low n (stateOf ?r) = low n g"
    using startNewAccessors_low(1) [OF o le] by simp
  have b: "own n st1" if "?r = Ok st1 g1" for st1 g1
    using that startNewAccessors_low(2) [OF o le] o by (auto split: if_splits)
  show "low n (stateOf (faceCallback h mesh st g f)) = low n g"
  proof (cases ?r)
    case (Err e g1)
    then show ?thesis using a by (simp add: faceCallback_def Let_def)
  next
    case (Ok st1 g1)
    have "low n (stateOf (pushColors h ?cm st1 f (pushVertexData st1 f g1))) = low n g1"
      using b [OF Ok] by simp
    then show ?thesis using a Ok
      by (cases "pushColors h ?cm st1 f (pushVertexData st1 f g1)")
        (simp_all add: faceCallback_def Let_def)
  qed
  show "own n st'" if "faceCallback h mesh st g f = Ok st' g'"
  proof (cases ?r)
    case (Err e g1)
    then show ?thesis using that by (simp add: faceCallback_def Let_def)
  next
    case (Ok st1 g1)
    then have "st' = st1" using that
      by (cases "pushColors h ?cm st1 f (pushVertexData st1 f g1)")
        (simp_all add: faceCallback_def Let_def)
    then show ?thesis using b [OF Ok] by simp
  qed
qed

lemma forEachFace_low:
  assumes "own n st" "n \<le> length (bufferViews g)"
  shows "low n (stateOf (forEachFace h mesh st g fs)) = low n g \<and>
         (\<forall>st' g'. forEachFace h mesh st g fs = Ok st' g' \<longrightarrow> own n st')"
  using assms
proof (induction fs arbitrary: st g)
  case Nil
  then show ?case by simp
next
  case (Cons f fs)
  have a: "low n (stateOf (faceCallback h mesh st g f)) = low n g"
    by (rule faceCallback_low(1) [OF Cons.prems])
  show ?case
  proof (cases "faceCallback h mesh st g f")
    case (Err e g1)
    then show ?thesis using a by simp
  next
    case (Ok st1 g1)
    have o1: "own n st1" by (rule faceCallback_low(2) [OF Cons.prems Ok])
    have l1: "n \<le> length (bufferViews g1)"
      using low_length [of n g1 g] a Ok Cons.prems(2) by simp
    show ?thesis using Cons.IH [OF o1 l1] a Ok by simp
  qed
qed

lemma low_fillMesh:
  "low (length (bufferViews g)) (stateOf (fillMesh h mesh n mb single g)) =
   low (length (bufferViews g)) g"
proof -
  let ?n = "length (bufferViews g)"
  let ?g1 = "snd (addBufferView mb FLOAT VEC3 g)"
  let ?g2 = "snd (addBufferView mb FLOAT VEC3 ?g1)"
  let ?g3 = "snd (addBufferView mb FLOAT VEC2 ?g2)"
  let ?st0 = "\<lparr>gltfMesh = n, meshBuffer = mb,
      vertexBufferView = fst (addBufferView mb FLOAT VEC3 g),
      vertexNormalBufferView = fst (addBufferView mb FLOAT VEC3 ?g1),
      vertexUVBufferView = fst (addBufferView mb FLOAT VEC2 ?g2),
      vertexColorBufferView = None, lastMaterialIndex = None\<rparr>"
  have l3: "low ?n ?g3 = low ?n g" by simp
  have o0: "own ?n ?st0" by (simp add: own_def)
  have le3: "?n \<le> length (bufferViews ?g3)" by simp
  note loop = forEachFace_low [OF o0 le3, of h mesh "mesh_faces mesh"]
  have a: "low ?n (stateOf (forEachFace h mesh ?st0 ?g3 (mesh_faces mesh))) = low ?n g"
    using loop l3 by simp
  show ?thesis
  proof (cases "forEachFace h mesh ?st0 ?g3 (mesh_faces mesh)")
    case (Err e g4)
    then show ?thesis using a
      by (simp add: fillMesh_def split_beta Let_def del: addBufferView_frame(4))
  next
    case (Ok st g4)
    have o: "own ?n st" using loop Ok by simp
    have c: "low ?n (stateOf (completeLast h mesh st g4)) = low ?n g"
      using o a Ok by simp
    show ?thesis
    proof (cases "completeLast h mesh st g4")
      case (Err e g5)
      then show ?thesis using c Ok
        by (simp add: fillMesh_def split_beta Let_def del: addBufferView_frame(4))
    next
      case ok5: (Ok u g5)
      have f: "?n \<le> fst (addBufferView mb FLOAT VEC3 g)"
        "?n \<le> fst (addBufferView mb FLOAT VEC3 ?g1)"
        "?n \<le> fst (addBufferView mb FLOAT VEC2 ?g2)"
        by simp_all
      have "low ?n g5 = low ?n g" using c ok5 by simp
      then show ?thesis using Ok ok5 o f
        by (simp add: fillMesh_def split_beta Let_def own_def del: addBufferView_frame(4)
            split: option.splits)
    qed
  qed
qed

subsection \<open>Raw images await their writes throughout the walk\<close>

lemma awaiting_iff:
  "awaiting g =
     (imageOutputType g = ImageGLB \<and>
      (\<exists>b. binChunkBuffer g = Some b \<and> b < length (buffers g) \<and>
        (\<forall>x \<in> set (arr (images g)). uri_in (img_extras x) = None \<longrightarrow>
           (\<exists>k. img_bufferView x = Some k \<and> k < length (bufferViews g) \<and>
                bv_buffer (bufferViews g ! k) = b \<and> \<not> bv_finalized (bufferViews g ! k) \<and>
                WriteThenFinalize k (img_extras x) \<in> set (pending g)))))"
  by (auto simp: awaiting_def list_all_iff split: option.splits)

lemma low_nth:
  assumes "low (length (bufferViews g)) g' = low (length (bufferViews g)) g"
    and "k < length (bufferViews g)"
  shows "k < length (bufferViews g')" "bufferViews g' ! k = bufferViews g ! k"
    and "length (buffers g') = length (buffers g)"
proof -
  have t: "take (length (bufferViews g)) (bufferViews g') = bufferViews g"
    using assms(1) by (simp add: low_def)
  show "k < length (bufferViews g')"
    using low_length [OF assms(1)] assms(2) by simp
  have "take (length (bufferViews g)) (bufferViews g') ! k = bufferViews g' ! k"
    using assms(2) by simp
  then show "bufferViews g' ! k = bufferViews g ! k" using t by simp
  show "length (buffers g') = length (buffers g)"
    using assms(1) by (simp add: low_def)
qed

lemma awaiting_outside:
  assumes a: "awaiting g" and o: "outside g' = outside g"
    and l: "low (length (bufferViews g)) g' = low (length (bufferViews g)) g"
  shows "awaiting g'"
proof -
  have same: "imageOutputType g' = imageOutputType g" "binChunkBuffer g' = binChunkBuffer g"
    "images g' = images g" "pending g' = pending g"
    using o by (simp_all add: outside_def upper_def)
  have len: "length (buffers g') = length (buffers g)"
    using l by (simp add: low_def)
  show ?thesis
    using a low_nth(1,2) [OF l]
    unfolding awaiting_iff same len by metis
qed

lemma awaiting_same:
  assumes "imageOutputType g' = imageOutputType g" "binChunkBuffer g' = binChunkBuffer g"
    "length (buffers g') = length (buffers g)" "bufferViews g' = bufferViews g"
    "pending g' = pending g"
    "arr (images g') = arr (images g)"
  shows "awaiting g' = awaiting g"
  unfolding awaiting_def assms ..

lemma awaiting_addBuffer: "awaiting g \<Longrightarrow> awaiting (snd (addBuffer g))"
  unfolding awaiting_iff by (auto simp: addBuffer_def)

lemma awaiting_addSampler [simp]: "awaiting (snd (addSampler g t)) = awaiting g"
  by (rule awaiting_same) (simp_all add: addSampler_def Let_def split: option.splits)

lemma awaiting_mapNode [simp]: "awaiting (mapNode i f g) = awaiting g"
  by (rule awaiting_same) (simp_all add: mapNode_def)

lemma awaiting_addImage:
  assumes "awaiting g"
  shows "awaiting (stateOf (addImage h g a))"
proof -
  from assms obtain b where b: "imageOutputType g = ImageGLB" "binChunkBuffer g = Some b"
    "b < length (buffers g)"
    and old: "\<And>x. x \<in> set (arr (images g)) \<Longrightarrow> uri_in (img_extras x) = None \<Longrightarrow>
           \<exists>k. img_bufferView x = Some k \<and> k < length (bufferViews g) \<and>
                bv_buffer (bufferViews g ! k) = b \<and> \<not> bv_finalized (bufferViews g ! k) \<and>
                WriteThenFinalize k (img_extras x) \<in> set (pending g)"
    unfolding awaiting_iff by blast
  let ?g1 = "g\<lparr>images := Some (arr (images g))\<rparr>"
  have "awaiting ?g1 = awaiting g" by (rule awaiting_same) (simp_all add: arr_def)
  then have a1: "awaiting ?g1" using assms by simp
  show ?thesis
  proof (cases "scanImages a (arr (images g)) 0")
    case (Some i)
    then show ?thesis using a1 by (simp add: addImage_def Let_def arr_def)
  next
    case None
    show ?thesis
    proof (cases "uri_in a")
      case (Some u)
      then show ?thesis using None b old
        unfolding awaiting_iff
        by (auto simp: addImage_def pushImage_def Let_def arr_def)
    next
      case raw: None
      let ?k = "length (bufferViews g)"
      have "awaiting (stateOf (addImage h g a))"
        unfolding awaiting_iff
        using None raw b old
        by (auto simp: addImage_def pushImage_def addBufferView_def Let_def arr_def nth_append
            split: option.splits)
      then show ?thesis .
    qed
  qed
qed

lemma awaiting_addTexture:
  assumes "awaiting g"
  shows "awaiting (stateOf (addTexture h g t))"
proof -
  let ?g1 = "g\<lparr>textures := Some (arr (textures g))\<rparr>"
  obtain s g2 where s: "addSampler ?g1 t = (s, g2)" by (cases "addSampler ?g1 t")
  have "awaiting ?g1 = awaiting g" by (rule awaiting_same) simp_all
  then have "awaiting g2" using assms awaiting_addSampler [of ?g1 t] s by simp
  then have a3: "awaiting (stateOf (addImage h g2 (tex_image t)))"
    by (rule awaiting_addImage)
  show ?thesis
  proof (cases "addImage h g2 (tex_image t)")
    case (Err e g3)
    then show ?thesis using a3 s by (simp add: addTexture_def)
  next
    case (Ok i g3)
    let ?g4 = "g3\<lparr>textures := Some (arr (textures g3) @ [\<lparr>tex_sampler = s, tex_source = i\<rparr>])\<rparr>"
    have "awaiting ?g4 = awaiting g3" by (rule awaiting_same) simp_all
    then show ?thesis using a3 s Ok by (simp add: addTexture_def)
  qed
qed

lemma awaiting_addMaterial:
  assumes "awaiting g"
  shows "awaiting (stateOf (addMaterial h g m))"
proof -
  let ?g1 = "g\<lparr>materials := Some (arr (materials g))\<rparr>"
  have "awaiting ?g1 = awaiting g" by (rule awaiting_same) simp_all
  then have a1: "awaiting ?g1" using assms by simp
  have fin: "awaiting (g2\<lparr>materials := Some (arr (materials g2) @ [x])\<rparr>)"
    if "awaiting g2" for g2 x
  proof -
    have "awaiting (g2\<lparr>materials := Some (arr (materials g2) @ [x])\<rparr>) = awaiting g2"
      by (rule awaiting_same) simp_all
    then show ?thesis using that by simp
  qed
  show ?thesis
  proof (cases "pbrMetallicRoughness m")
    case None
    then show ?thesis using fin [OF a1] by (simp add: addMaterial_def)
  next
    case (Some pbr)
    show ?thesis
    proof (cases "baseColorTexture pbr")
      case None
      then show ?thesis using Some fin [OF a1] by (simp add: addMaterial_def)
    next
      case (Some tx)
      have t: "awaiting (stateOf (addTexture h ?g1 tx))"
        by (rule awaiting_addTexture [OF a1])
      show ?thesis
      proof (cases "addTexture h ?g1 tx")
        case (Err e g2)
        then show ?thesis using t Some \<open>pbrMetallicRoughness m = Some pbr\<close>
          by (simp add: addMaterial_def)
      next
        case (Ok i g2)
        then show ?thesis using t fin [of g2] Some \<open>pbrMetallicRoughness m = Some pbr\<close>
          by (simp add: addMaterial_def)
      qed
    qed
  qed
qed

lemma awaiting_addMaterialsFrom:
  "awaiting g \<Longrightarrow> awaiting (stateOf (addMaterialsFrom h acc g ms))"
proof (induction ms arbitrary: acc g)
  case Nil
  then show ?case by simp
next
  case (Cons m ms)
  have a: "awaiting (stateOf (addMaterial h g m))"
    by (rule awaiting_addMaterial [OF Cons.prems])
  show ?case
  proof (cases "addMaterial h g m")
    case (Err e g1)
    then show ?thesis using a by simp
  next
    case (Ok i g1)
    have "awaiting g1" using a Ok by simp
    then have "awaiting (stateOf (addMaterialsFrom h (acc @ [i]) g1 ms))"
      by (rule Cons.IH)
    then show ?thesis using Ok by simp
  qed
qed

lemma awaiting_fillMesh:
  "awaiting g \<Longrightarrow> awaiting (stateOf (fillMesh h mesh n mb single g))"
  by (rule awaiting_outside [OF _ outside_fillMesh low_fillMesh])

lemma awaiting_addMesh:
  assumes "awaiting g"
  shows "awaiting (stateOf (addMesh h g mesh))"
proof -
  let ?g0 = "g\<lparr>meshes := Some (arr (meshes g))\<rparr>"
  have "awaiting ?g0 = awaiting g" by (rule awaiting_same) simp_all
  then have a0: "awaiting ?g0" using assms by simp
  show ?thesis
  proof (cases "mesh_mode mesh = TRIANGLES")
    case False
    then show ?thesis using a0 by (simp add: addMesh_def Let_def)
  next
    case True
    have a: "awaiting (stateOf (addMaterialsFrom h [] ?g0 (mesh_material mesh)))"
      by (rule awaiting_addMaterialsFrom [OF a0])
    show ?thesis
    proof (cases "addMaterialsFrom h [] ?g0 (mesh_material mesh)")
      case (Err e g1)
      then show ?thesis using a True by (simp add: addMesh_def Let_def addMaterials_def)
    next
      case (Ok idx g1)
      let ?g2 = "g1\<lparr>meshes := Some (arr (meshes g1) @ [\<lparr>primitives = []\<rparr>])\<rparr>"
      have "awaiting ?g2 = awaiting g1" by (rule awaiting_same) simp_all
      then have a2: "awaiting ?g2" using a Ok by simp
      have a3: "awaiting (snd (addBuffer ?g2))"
        by (rule awaiting_addBuffer [OF a2])
      show ?thesis
      proof (cases "binChunkBuffer ?g2")
        case None
        show ?thesis
        proof (cases "bufferOutputType ?g2 = BufferGLB")
          case t: True
          then show ?thesis using True Ok None a2
            by (simp add: addMesh_def Let_def addMaterials_def split_beta)
        next
          case f0: False
          then show ?thesis using True Ok None awaiting_fillMesh [OF a3]
            by (simp add: addMesh_def Let_def addMaterials_def split_beta)
        qed
      next
        case (Some b)
        show ?thesis
        proof (cases "bufferOutputType ?g2 = BufferGLB")
          case t: True
          then show ?thesis using True Ok Some awaiting_fillMesh [OF a2]
            by (simp add: addMesh_def Let_def addMaterials_def split_beta)
        next
          case f0: False
          then show ?thesis using True Ok Some awaiting_fillMesh [OF a3]
            by (simp add: addMesh_def Let_def addMaterials_def split_beta)
        qed
      qed
    qed
  qed
qed

lemma addChildren_awaiting:
  assumes "\<And>c g. c \<in> set cs \<Longrightarrow> awaiting g \<Longrightarrow> awaiting (stateOf (addNode h g c))"
    and "awaiting g"
  shows "awaiting (stateOf (addChildren h p g cs))"
  using assms
proof (induction cs arbitrary: g)
  case Nil
  then show ?case by simp
next
  case (Cons c cs)
  let ?g1 = "mapNode p (\<lambda>n. n\<lparr>gn_children := Some (arr (gn_children n))\<rparr>) g"
  have a1: "awaiting ?g1" using Cons.prems(2) by simp
  have k2: "awaiting (stateOf (addNode h ?g1 c))"
    by (rule Cons.prems(1)) (simp, rule a1)
  show ?case
  proof (cases "addNode h ?g1 c")
    case (Err e g2)
    then show ?thesis using k2 by simp
  next
    case (Ok index g2)
    let ?g3 = "mapNode p (\<lambda>n. n\<lparr>gn_children := Some (arr (gn_children n) @ [index])\<rparr>) g2"
    have a3: "awaiting ?g3" using k2 Ok by simp
    have "awaiting (stateOf (addChildren h p ?g3 cs))"
      by (rule Cons.IH) (rule Cons.prems(1), simp, assumption, rule a3)
    then show ?thesis using Ok by simp
  qed
qed

lemma awaiting_addNode:
  "awaiting g \<Longrightarrow> awaiting (stateOf (addNode h g node))"
proof (induction node arbitrary: g)
  case (Node name t r s m cs)
  let ?node = "Node name t r s m cs"
  let ?n = "length (arr (nodes g))"
  let ?g2 = "g\<lparr>nodes := Some (arr (nodes g) @ [newNode ?node])\<rparr>"
  have "awaiting ?g2 = awaiting g" by (rule awaiting_same) simp_all
  then have a2: "awaiting ?g2" using Node.prems by simp
  show ?case
  proof (cases m)
    case None
    have "awaiting (stateOf (addChildren h ?n ?g2 cs))"
      by (rule addChildren_awaiting) (rule Node.IH, assumption, assumption, rule a2)
    then show ?thesis using None
      by (cases "addChildren h ?n ?g2 cs") (simp_all add: arr_def)
  next
    case (Some mesh)
    have a: "awaiting (stateOf (addMesh h ?g2 mesh))" by (rule awaiting_addMesh [OF a2])
    show ?thesis
    proof (cases "addMesh h ?g2 mesh")
      case (Err e g3)
      then show ?thesis using a Some by (simp add: arr_def)
    next
      case (Ok index g3)
      have "awaiting (mapNode ?n (\<lambda>n. n\<lparr>gn_mesh := Some index\<rparr>) g3)"
        using a Ok by simp
      then show ?thesis using Some Ok
        by (simp add: arr_def Let_def)
    qed
  qed
qed

lemma awaiting_addSceneNodes:
  "awaiting g \<Longrightarrow> awaiting (stateOf (addSceneNodes h sc g ns))"
proof (induction ns arbitrary: sc g)
  case Nil
  then show ?case by simp
next
  case (Cons n ns)
  have a: "awaiting (stateOf (addNode h g n))" by (rule awaiting_addNode [OF Cons.prems])
  show ?case
  proof (cases "addNode h g n")
    case (Err e g1)
    then show ?thesis using a by (simp add: Let_def)
  next
    case (Ok i g1)
    have "awaiting g1" using a Ok by simp
    then have "awaiting (stateOf (addSceneNodes h sc' g1 ns))" for sc'
      by (rule Cons.IH)
    then show ?thesis using Ok by (simp add: Let_def)
  qed
qed

lemma awaiting_addScene:
  assumes "awaiting g"
  shows "awaiting (stateOf (addScene h g sc))"
proof -
  let ?g1 = "g\<lparr>scenes := Some (arr (scenes g))\<rparr>"
  let ?s = "\<lparr>gsc_name = (if scene_name sc \<noteq> [] then Some (scene_name sc) else None),
             gsc_nodes = None\<rparr>"
  have "awaiting ?g1 = awaiting g" by (rule awaiting_same) simp_all
  then have a1: "awaiting ?g1" using assms by simp
  have a: "awaiting (stateOf (addSceneNodes h ?s ?g1 (scene_nodes sc)))"
    by (rule awaiting_addSceneNodes [OF a1])
  show ?thesis
  proof (cases "addSceneNodes h ?s ?g1 (scene_nodes sc)")
    case (Err e g2)
    then show ?thesis using a by (simp add: addScene_def)
  next
    case (Ok s g2)
    have "awaiting (g2\<lparr>scenes := Some (arr (scenes g2) @ [s])\<rparr>) = awaiting g2"
      by (rule awaiting_same) simp_all
    then show ?thesis using a Ok by (simp add: addScene_def)
  qed
qed

lemma awaiting_forEachScene:
  "awaiting g \<Longrightarrow> awaiting (stateOf (forEachScene h g scs))"
proof (induction scs arbitrary: g)
  case Nil
  then show ?case by simp
next
  case (Cons sc scs)
  have a: "awaiting (stateOf (addScene h g sc))" by (rule awaiting_addScene [OF Cons.prems])
  show ?case
  proof (cases "addScene h g sc")
    case (Err e g1)
    then show ?thesis using a by simp
  next
    case (Ok u g1)
    have "awaiting g1" using a Ok by simp
    then have "awaiting (stateOf (forEachScene h g1 scs))" by (rule Cons.IH)
    then show ?thesis using Ok by simp
  qed
qed

subsection \<open>The call of \<^verbatim>\<open>finalize()\<close> on the container buffer\<close>

text \<open>
  The example asset in a build whose images go into the container: the whole call,
  evaluated.
\<close>

lemma addScenes_texturedAsset:
  "addScenes exampleHost (emptyDocument BufferDataURI ImageGLB) texturedAsset =
   Ok ()
    \<lparr>scene = Some 0, scenes = Some [\<lparr>gsc_name = None, gsc_nodes = Some [0]\<rparr>],
     nodes = Some [\<lparr>gn_name = None, gn_translation = None, gn_rotation = None,
                    gn_scale = None, gn_mesh = Some 0, gn_children = None\<rparr>],
     meshes = Some [\<lparr>primitives = []\<rparr>],
     materials = Some [\<lparr>gm_name = None, gm_alphaMode = None, gm_alphaCutoff = None,
                        gm_doubleSided = None,
                        gm_pbrMetallicRoughness =
                          Some \<lparr>gpbr_params = [], gpbr_baseColorTexture = Some 0\<rparr>\<rparr>],
     textures = Some [\<lparr>tex_sampler = 0, tex_source = 0\<rparr>],
     images = Some [\<lparr>img_extras = HTMLImage 0, img_uri = None, img_bufferView = Some 0,
                     img_mimeType = Some ''image/png''\<rparr>],
     samplers = Some [\<lparr>gs_wrapS = REPEAT, gs_wrapT = CLAMP_TO_EDGE\<rparr>],
     accessors = None,
     buffers = [\<lparr>buf_views = [0], buf_finalizeCalled = True\<rparr>,
                \<lparr>buf_views = [1, 2, 3], buf_finalizeCalled = True\<rparr>],
     bufferViews =
       [\<lparr>bv_buffer = 0, bv_componentType = UNSIGNED_BYTE, bv_dataType = SCALAR,
          bv_data = [], bv_segment = None, bv_finalized = False\<rparr>,
        \<lparr>bv_buffer = 1, bv_componentType = FLOAT, bv_dataType = VEC3,
          bv_data = [], bv_segment = None, bv_finalized = True\<rparr>,
        \<lparr>bv_buffer = 1, bv_componentType = FLOAT, bv_dataType = VEC3,
          bv_data = [], bv_segment = None, bv_finalized = True\<rparr>,
        \<lparr>bv_buffer = 1, bv_componentType = FLOAT, bv_dataType = VEC2,
          bv_data = [], bv_segment = None, bv_finalized = True\<rparr>],
     bufferOutputType = BufferDataURI, imageOutputType = ImageGLB,
     binChunkBuffer = Some 0, promises = [],
     pending = [WriteThenFinalize 0 (HTMLImage 0)]\<rparr>"
  by (simp add: addScenes_def addScene_def addMesh_def fillMesh_def addMaterials_def addMaterial_def
      addTexture_def addSampler_def addImage_def pushImage_def addBufferView_def addBuffer_def
      finalizeView_def finalizeBuffer_def mapView_def mapNode_def completeLast_def
      emptyDocument_def texturedAsset_def meshOf_def plainMaterial_def textureNearest_def
      newNode_def arr_def Let_def split_beta nth_append)

text \<open>
  C2 (as the code has it). Take a document whose images go into the container and which
  holds no raw image yet, and let \<^const>\<open>addScenes\<close> return normally. The container buffer
  is the buffer created at the start of the call, and \<^verbatim>\<open>finalize()\<close> has been called on
  it when the call returns. At that moment every raw image of the document has a view of
  the container buffer, the reaction that writes the image into the view and then calls
  the view's \<^verbatim>\<open>finalize()\<close> is still pending, and the view is not sealed; the view is
  sealed once the host has run that reaction. So the call of \<^verbatim>\<open>finalize()\<close> on the
  container comes before the writes of the images resolve, and not after them; and when
  there is at least one raw image, the container buffer is not yet finalized when
  \<^const>\<open>addScenes\<close> returns.
\<close>

theorem addScenes_finalize_call_precedes_writes:
  assumes glb: "imageOutputType g = ImageGLB"
    and start: "list_all (\<lambda>x. uri_in (img_extras x) \<noteq> None) (arr (images g))"
    and ret: "addScenes h g asset = Ok () g'"
  shows "binChunkBuffer g' = Some (length (buffers g)) \<and>
         buf_finalizeCalled (buffers g' ! length (buffers g)) \<and>
         (\<forall>x \<in> set (arr (images g')). uri_in (img_extras x) = None \<longrightarrow>
            (\<exists>k. img_bufferView x = Some k \<and> k < length (bufferViews g') \<and>
                 bv_buffer (bufferViews g' ! k) = length (buffers g) \<and>
                 WriteThenFinalize k (img_extras x) \<in> set (pending g') \<and>
                 \<not> bv_finalized (bufferViews g' ! k) \<and>
                 bv_finalized
                   (bufferViews (runJob h (WriteThenFinalize k (img_extras x)) g') ! k))) \<and>
         ((\<exists>x \<in> set (arr (images g')). uri_in (img_extras x) = None) \<longrightarrow>
            \<not> finalized g' (length (buffers g)))"
proof -
  let ?b = "length (buffers g)"
  let ?g1 = "g\<lparr>scene := Some (defaultScene asset)\<rparr>"
  let ?g2 = "(snd (addBuffer ?g1))\<lparr>binChunkBuffer := Some ?b\<rparr>"
  have a2: "awaiting ?g2"
    unfolding awaiting_iff using glb start
    by (auto simp: addBuffer_def list_all_iff)
  have walk: "awaiting (stateOf (forEachScene h ?g2 (asset_scenes asset)))"
    by (rule awaiting_forEachScene [OF a2])
  have "settled ?g2 (stateOf (forEachScene h ?g2 (asset_scenes asset)))"
    by (rule settled_forEachScene)
  then have bin: "binChunkBuffer (stateOf (forEachScene h ?g2 (asset_scenes asset))) = Some ?b"
    by (simp add: settled_def)
  obtain u g3 where ok: "forEachScene h ?g2 (asset_scenes asset) = Ok u g3"
    using ret glb
    by (cases "forEachScene h ?g2 (asset_scenes asset)")
      (simp_all add: addScenes_def Let_def split_beta)
  have b3: "binChunkBuffer g3 = Some ?b" and a3: "awaiting g3"
    using bin walk ok by simp_all
  have g': "g' = finalizeBuffer ?b g3"
    using ret glb ok b3 by (simp add: addScenes_def Let_def split_beta)
  have lt: "?b < length (buffers g3)"
    using a3 b3 unfolding awaiting_iff by auto
  have "awaiting g' = awaiting g3"
    unfolding g' by (rule awaiting_same) (simp_all add: finalizeBuffer_def)
  then have a': "awaiting g'" using a3 by simp
  have b': "binChunkBuffer g' = Some ?b"
    unfolding g' using b3 by (simp add: finalizeBuffer_def)
  have called: "buf_finalizeCalled (buffers g' ! ?b)"
    unfolding g' using lt by (simp add: finalizeBuffer_def)
  have each: "\<exists>k. img_bufferView x = Some k \<and> k < length (bufferViews g') \<and>
                 bv_buffer (bufferViews g' ! k) = ?b \<and>
                 WriteThenFinalize k (img_extras x) \<in> set (pending g') \<and>
                 \<not> bv_finalized (bufferViews g' ! k) \<and>
                 bv_finalized
                   (bufferViews (runJob h (WriteThenFinalize k (img_extras x)) g') ! k)"
    if "x \<in> set (arr (images g'))" "uri_in (img_extras x) = None" for x
  proof -
    from a' b' that obtain k where k: "img_bufferView x = Some k" "k < length (bufferViews g')"
      "bv_buffer (bufferViews g' ! k) = ?b" "\<not> bv_finalized (bufferViews g' ! k)"
      "WriteThenFinalize k (img_extras x) \<in> set (pending g')"
      unfolding awaiting_iff by fastforce
    have "bv_finalized (bufferViews (runJob h (WriteThenFinalize k (img_extras x)) g') ! k)"
      using k(2) by (simp add: finalizeView_def mapView_def)
    then show ?thesis using k by blast
  qed
  have notyet: "\<not> finalized g' ?b" if "\<exists>x \<in> set (arr (images g')). uri_in (img_extras x) = None"
  proof -
    from that each obtain k where "k < length (bufferViews g')"
      "bv_buffer (bufferViews g' ! k) = ?b" "\<not> bv_finalized (bufferViews g' ! k)"
      by blast
    then show ?thesis
      by (auto simp: finalized_def list_all_length)
  qed
  show ?thesis
    using b' called each notyet by blast
qed

text \<open>
  The example asset, with its one raw image: the container buffer is not finalized when
  \<^const>\<open>addScenes\<close> returns, and it is once the host has run the pending write.
\<close>

theorem addScenes_finalize_call_precedes_writes_witness:
  "imageOutputType (emptyDocument BufferDataURI ImageGLB) = ImageGLB \<and>
   arr (images (emptyDocument BufferDataURI ImageGLB)) = [] \<and>
   valueOf (addScenes exampleHost (emptyDocument BufferDataURI ImageGLB) texturedAsset) = Some () \<and>
   map (\<lambda>x. uri_in (img_extras x))
     (arr (images (stateOf (addScenes exampleHost (emptyDocument BufferDataURI ImageGLB)
                              texturedAsset)))) = [None] \<and>
   \<not> finalized (stateOf (addScenes exampleHost (emptyDocument BufferDataURI ImageGLB)
                           texturedAsset)) 0 \<and>
   finalized (runJob exampleHost (WriteThenFinalize 0 (HTMLImage 0))
                (stateOf (addScenes exampleHost (emptyDocument BufferDataURI ImageGLB)
                            texturedAsset))) 0"
proof -
  let ?g = "emptyDocument BufferDataURI ImageGLB"
  have h1: "imageOutputType ?g = ImageGLB" by (simp add: emptyDocument_def)
  have h2: "list_all (\<lambda>x. uri_in (img_extras x) \<noteq> None) (arr (images ?g))"
    by (simp add: emptyDocument_def arr_def)
  have len: "length (buffers ?g) = 0" by (simp add: emptyDocument_def)
  note general = addScenes_finalize_call_precedes_writes [OF h1 h2 addScenes_texturedAsset]
  have "\<not> finalized (stateOf (addScenes exampleHost ?g texturedAsset)) 0"
    using general unfolding addScenes_texturedAsset len by (simp add: arr_def)
  moreover have "finalized (runJob exampleHost (WriteThenFinalize 0 (HTMLImage 0))
                   (stateOf (addScenes exampleHost ?g texturedAsset))) 0"
    unfolding addScenes_texturedAsset
    by (simp add: finalized_def finalizeView_def mapView_def)
  moreover have "map (\<lambda>x. uri_in (img_extras x))
     (arr (images (stateOf (addScenes exampleHost ?g texturedAsset)))) = [None]"
    unfolding addScenes_texturedAsset by (simp add: arr_def)
  moreover have "valueOf (addScenes exampleHost ?g texturedAsset) = Some ()"
    unfolding addScenes_texturedAsset by simp
  ultimately show ?thesis
    using h1 by (simp add: emptyDocument_def arr_def)
qed

text \<open>
  C2 as the specification states it fails: on the example asset \<^const>\<open>addScenes\<close> returns
  normally after it has called \<^verbatim>\<open>finalize()\<close> on the container buffer, and at that moment
  the write of the image into view 0, a view of the container buffer, is still pending and
  \<^verbatim>\<open>finalize()\<close> has not been called on that view.
\<close>

theorem addScenes_finalize_called_while_write_pending_counterexample:
  "valueOf (addScenes exampleHost (emptyDocument BufferDataURI ImageGLB) texturedAsset) = Some () \<and>
   binChunkBuffer (stateOf (addScenes exampleHost (emptyDocument BufferDataURI ImageGLB)
                              texturedAsset)) = Some 0 \<and>
   buf_finalizeCalled (buffers (stateOf (addScenes exampleHost
                                  (emptyDocument BufferDataURI ImageGLB) texturedAsset)) ! 0) \<and>
   map img_bufferView
     (arr (images (stateOf (addScenes exampleHost (emptyDocument BufferDataURI ImageGLB)
                              texturedAsset)))) = [Some 0] \<and>
   bv_buffer (bufferViews (stateOf (addScenes exampleHost (emptyDocument BufferDataURI ImageGLB)
                                      texturedAsset)) ! 0) = 0 \<and>
   pending (stateOf (addScenes exampleHost (emptyDocument BufferDataURI ImageGLB) texturedAsset)) =
     [WriteThenFinalize 0 (HTMLImage 0)] \<and>
   \<not> bv_finalized (bufferViews (stateOf (addScenes exampleHost
                                      (emptyDocument BufferDataURI ImageGLB) texturedAsset)) ! 0)"
  unfolding addScenes_texturedAsset
  by (simp add: arr_def)

end
